theory Spec2Isabelle
  imports Main "HOL-Library.Multiset" "HOL-Library.Char_ord" "HOL-Library.List_Lexorder"
    "HOL-Library.Product_Lexorder"
begin

section \<open>Data model\<close>

text \<open>
  The connection manager of \<^verbatim>\<open>src/main/js/common/MoneroConnectionManager.js\<close> holds
  JavaScript objects by reference and compares them with \<^verbatim>\<open>===\<close>. The model keeps an
  explicit heap of connection objects: a reference is the index of its object in the heap.
\<close>

type_synonym ref = nat

text \<open>
  Modelled from the spec: the class \<^verbatim>\<open>MoneroRpcConnection\<close> is required at line 3 but is not
  among the source files. Its fields are those of the Endpoint of the data model: an
  address, optional credentials, a non-negative priority, and the tri-state
  reachability and authentication status (\<open>None\<close> is JavaScript's \<^verbatim>\<open>undefined\<close>).
\<close>

record connection =
  uri :: string
  username :: "string option"
  password :: "string option"
  priority :: nat
  isOnline :: "bool option"
  isAuthenticated :: "bool option"

datatype error =
    MoneroError string
  | ReferenceError string
  | TypeError string
  | AggregateError
  | ProbeError
  | NotHealthy
  | HandlerError nat

text \<open>
  The manager of the constructor (lines 12-16) with the fields the methods add later
  (\<^verbatim>\<open>_currentConnection\<close>, \<^verbatim>\<open>_autoSwitch\<close>; both start \<^verbatim>\<open>undefined\<close>), together with the
  heap its references point into. Listeners are identified by a number.
\<close>

record manager =
  heap :: "connection list"
  timeoutInMs :: nat
  connections :: "ref list"
  listeners :: "nat list"
  currentConnection :: "ref option"
  autoSwitch :: bool

definition DEFAULT_TIMEOUT :: nat where
  "DEFAULT_TIMEOUT = 5000"

definition new_manager :: "connection list \<Rightarrow> manager" where
  "new_manager h =
     \<lparr>heap = h, timeoutInMs = DEFAULT_TIMEOUT, connections = [], listeners = [],
      currentConnection = None, autoSwitch = False\<rparr>"

text \<open>The getters of a connection object, read through the heap.\<close>

definition getUri :: "manager \<Rightarrow> ref \<Rightarrow> string" where
  "getUri m c = uri (heap m ! c)"

definition getUsername :: "manager \<Rightarrow> ref \<Rightarrow> string option" where
  "getUsername m c = username (heap m ! c)"

definition getPassword :: "manager \<Rightarrow> ref \<Rightarrow> string option" where
  "getPassword m c = password (heap m ! c)"

definition getPriority :: "manager \<Rightarrow> ref \<Rightarrow> nat" where
  "getPriority m c = priority (heap m ! c)"

section \<open>Registry operations\<close>

text \<open>\<^verbatim>\<open>getConnectionByUri\<close> (lines 92-95): the first registered connection with the URI.\<close>

definition getConnectionByUri :: "manager \<Rightarrow> string \<Rightarrow> ref option" where
  "getConnectionByUri m u = find (\<lambda>c. getUri m c = u) (connections m)"

text \<open>\<^verbatim>\<open>addConnection\<close> (lines 46-52): throws before it changes anything.\<close>

definition addConnection :: "manager \<Rightarrow> ref \<Rightarrow> error + manager" where
  "addConnection m c =
     (if list_ex (\<lambda>a. getUri m a = getUri m c) (connections m)
      then Inl (MoneroError ''Connection URI already exists'')
      else Inr (m\<lparr>connections := connections m @ [c]\<rparr>))"

text \<open>
  \<^verbatim>\<open>removeConnection\<close> (lines 60-66). Line 63 is
  \<^verbatim>\<open>GenUtils.remove(connections, connection)\<close>: its first argument is the identifier
  \<^verbatim>\<open>connections\<close>, which neither the method (\<^verbatim>\<open>uri\<close>, \<^verbatim>\<open>connection\<close>) nor the module
  (the five \<^verbatim>\<open>require\<close>d names and the class) binds; the registry is the field
  \<^verbatim>\<open>this._connections\<close>. Reading an unbound identifier throws a \<^verbatim>\<open>ReferenceError\<close> while
  the arguments are evaluated, so \<^verbatim>\<open>GenUtils.remove\<close> is never called and line 64 never
  runs. (Were the identifier bound, \<^verbatim>\<open>GenUtils.remove\<close> would work on the array it names,
  which is not the registry, and line 64 would run.) The result is the error thrown, if
  any, and the manager as the call leaves it.
\<close>

definition bound_identifiers :: "string list" where
  "bound_identifiers =
     [''uri'', ''connection'', ''GenUtils'', ''MoneroError'', ''MoneroRpcConnection'',
      ''TaskLooper'', ''ThreadPool'', ''MoneroConnectionManager'']"

definition removeConnection :: "manager \<Rightarrow> string \<Rightarrow> error option \<times> manager" where
  "removeConnection m u =
     (case getConnectionByUri m u of
        None \<Rightarrow> (Some (MoneroError (''No connection exists with URI: '' @ u)), m)
      | Some connection \<Rightarrow>
          if ''connections'' \<in> set bound_identifiers
          then (None,
                if Some connection = currentConnection m
                then m\<lparr>currentConnection := None\<rparr> else m)
          else (Some (ReferenceError ''connections is not defined''), m))"

section \<open>Selecting the current connection\<close>

text \<open>
  Modelled from the spec: \<^verbatim>\<open>setCredentials\<close> and the constructor of \<^verbatim>\<open>MoneroRpcConnection\<close>
  are not among the source files. \<^verbatim>\<open>setCredentials(user, secret)\<close> overwrites the
  credentials of the object with the supplied values; \<^verbatim>\<open>new MoneroRpcConnection(uri)\<close>
  allocates an object with empty credentials, priority 0 and unknown status.
\<close>

definition setCredentials :: "manager \<Rightarrow> ref \<Rightarrow> string option \<Rightarrow> string option \<Rightarrow> manager" where
  "setCredentials m c u p =
     m\<lparr>heap := (heap m)[c := (heap m ! c)\<lparr>username := u, password := p\<rparr>]\<rparr>"

definition new_MoneroRpcConnection :: "manager \<Rightarrow> string \<Rightarrow> manager \<times> ref" where
  "new_MoneroRpcConnection m u =
     (m\<lparr>heap := heap m @
          [\<lparr>uri = u, username = None, password = None, priority = 0, isOnline = None,
            isAuthenticated = None\<rparr>]\<rparr>,
      length (heap m))"

text \<open>
  What a method leaves behind: the error it threw (if any), the manager, and the calls of
  \<^verbatim>\<open>_onConnectionChanged\<close> it made, each with its argument (\<open>None\<close> is \<^verbatim>\<open>undefined\<close>).
\<close>

record result =
  thrown :: "error option"
  after :: manager
  notified :: "ref option list"

definition returns :: "manager \<Rightarrow> result" where
  "returns m = \<lparr>thrown = None, after = m, notified = []\<rparr>"

definition throws :: "error \<Rightarrow> manager \<Rightarrow> result" where
  "throws e m = \<lparr>thrown = Some e, after = m, notified = []\<rparr>"

definition onConnectionChanged :: "ref option \<Rightarrow> result \<Rightarrow> result" where
  "onConnectionChanged c r = r\<lparr>notified := notified r @ [c]\<rparr>"

text \<open>
  The argument of \<^verbatim>\<open>setConnection\<close>: a string, a \<^verbatim>\<open>MoneroRpcConnection\<close> object,
  \<^verbatim>\<open>undefined\<close>, a falsy value other than \<^verbatim>\<open>undefined\<close> and the empty string (\<^verbatim>\<open>null\<close>,
  \<^verbatim>\<open>false\<close>, \<^verbatim>\<open>0\<close>, \<^verbatim>\<open>NaN\<close>), or any other truthy value, which line 178 rejects.
\<close>

datatype uriOrConnection = Uri string | Conn ref | Undefined | Falsy | Other

text \<open>
  Lines 167-196 for an argument that is a connection object. The third disjunct of
  line 190 compares \<^verbatim>\<open>connection.getPassword()\<close> with itself.
\<close>

definition setConnection_object :: "manager \<Rightarrow> ref \<Rightarrow> result" where
  "setConnection_object m connection =
     (if currentConnection m = Some connection then returns m
      else case getConnectionByUri m (getUri m connection) of
          None \<Rightarrow>
            (case addConnection m connection of
               Inl e \<Rightarrow> throws e m
             | Inr m1 \<Rightarrow>
                 onConnectionChanged (Some connection)
                   (returns (m1\<lparr>currentConnection := Some connection\<rparr>)))
        | Some prevConnection \<Rightarrow>
            if Some prevConnection \<noteq> currentConnection m
               \<or> getUsername m prevConnection \<noteq> getUsername m connection
               \<or> getPassword m connection \<noteq> getPassword m connection
            then onConnectionChanged (Some prevConnection)
                   (returns ((setCredentials m prevConnection (getUsername m connection)
                                (getPassword m connection))
                             \<lparr>currentConnection := Some prevConnection\<rparr>))
            else returns m)"

text \<open>
  \<^verbatim>\<open>setConnection\<close> (lines 158-197). The field \<^verbatim>\<open>_currentConnection\<close> only ever holds
  \<^verbatim>\<open>undefined\<close> or a connection object, so the identity test of line 168 ends the call
  for \<^verbatim>\<open>undefined\<close> exactly when there is no current connection, and never for another
  falsy value: that one always reaches lines 171-175, which clear the current connection
  and call \<^verbatim>\<open>_onConnectionChanged(undefined)\<close>.
\<close>

definition setConnection :: "manager \<Rightarrow> uriOrConnection \<Rightarrow> result" where
  "setConnection m x =
     (case x of
        Uri u \<Rightarrow>
          (case getConnectionByUri m u of
             None \<Rightarrow> (case new_MoneroRpcConnection m u of (m1, c) \<Rightarrow> setConnection_object m1 c)
           | Some c \<Rightarrow> setConnection_object m c)
      | Conn c \<Rightarrow> setConnection_object m c
      | Undefined \<Rightarrow>
          if currentConnection m = None then returns m
          else onConnectionChanged None (returns (m\<lparr>currentConnection := None\<rparr>))
      | Falsy \<Rightarrow> onConnectionChanged None (returns (m\<lparr>currentConnection := None\<rparr>))
      | Other \<Rightarrow>
          throws (MoneroError ''Must provide string or MoneroRpcConnection to set connection'') m)"

text \<open>\<^verbatim>\<open>disconnect\<close> (lines 314-316).\<close>

definition disconnect :: "manager \<Rightarrow> result" where
  "disconnect m = setConnection m Undefined"

text \<open>
  Every reference of the manager points into the heap, as every JavaScript reference does.
\<close>

definition wf_manager :: "manager \<Rightarrow> bool" where
  "wf_manager m =
     (list_all (\<lambda>c. c < length (heap m)) (connections m)
      \<and> (case currentConnection m of None \<Rightarrow> True | Some c \<Rightarrow> c < length (heap m)))"

text \<open>The credentials of an object, and whether a call changed what the manager shows.\<close>

definition credentials :: "connection \<Rightarrow> string option \<times> string option" where
  "credentials c = (username c, password c)"

definition state_changed :: "manager \<Rightarrow> manager \<Rightarrow> bool" where
  "state_changed m m' =
     (currentConnection m' \<noteq> currentConnection m
      \<or> list_ex (\<lambda>c. credentials (heap m' ! c) \<noteq> credentials (heap m ! c)) [0..<length (heap m)])"

section \<open>Ranking\<close>

text \<open>
  \<^verbatim>\<open>String.prototype.localeCompare\<close> is a built-in of the language: it compares two
  strings in the collation of the locale of the runtime, which is not the order of the
  character codes (the usual collations put \<open>a\<close> before \<open>B\<close>, whose code is the smaller).
  Which collation that is lies outside the program, so it is a parameter \<open>lc\<close> of the
  model: \<open>lc a b\<close> is negative, zero or positive as \<open>a\<close> sorts before, with or after \<open>b\<close>.
  A collation orders the strings consistently when any two strings are comparable and
  the comparison is transitive.
\<close>

type_synonym collation = "string \<Rightarrow> string \<Rightarrow> int"

definition consistent_collation :: "collation \<Rightarrow> bool" where
  "consistent_collation lc =
     ((\<forall>a b. lc a b \<le> 0 \<or> lc b a \<le> 0)
      \<and> (\<forall>a b c. lc a b \<le> 0 \<and> lc b c \<le> 0 \<longrightarrow> lc a c \<le> 0))"

text \<open>\<^verbatim>\<open>_compareConnections\<close> (lines 348-364), branch by branch.\<close>

definition compareConnections :: "collation \<Rightarrow> manager \<Rightarrow> ref \<Rightarrow> ref \<Rightarrow> int" where
  "compareConnections lc m c1 c2 =
     (if Some c1 = currentConnection m then - 1
      else if Some c2 = currentConnection m then 1
      else if isOnline (heap m ! c1) = isOnline (heap m ! c2) then
        (if getPriority m c1 = getPriority m c2
         then lc (getUri m c1) (getUri m c2)
         else if getPriority m c1 = 0 then 1
         else if getPriority m c2 = 0 then - 1
         else int (getPriority m c1) - int (getPriority m c2))
      else if isOnline (heap m ! c1) = Some True then - 1
      else if isOnline (heap m ! c2) = Some True then 1
      else if isOnline (heap m ! c1) = None then - 1
      else 1)"

text \<open>
  \<^verbatim>\<open>Array.prototype.sort(comparefn)\<close> is a built-in of the language: a stable sort that
  puts \<open>a\<close> before \<open>b\<close> when \<open>comparefn(a, b) < 0\<close>. The model is the stable insertion
  sort; for a comparison function that orders the elements consistently every
  implementation returns the same array.
\<close>

fun insert_by :: "('a \<Rightarrow> 'a \<Rightarrow> int) \<Rightarrow> 'a \<Rightarrow> 'a list \<Rightarrow> 'a list" where
  "insert_by cmp x [] = [x]"
| "insert_by cmp x (y # ys) = (if cmp x y \<le> 0 then x # y # ys else y # insert_by cmp x ys)"

definition array_sort :: "('a \<Rightarrow> 'a \<Rightarrow> int) \<Rightarrow> 'a list \<Rightarrow> 'a list" where
  "array_sort cmp xs = foldr (insert_by cmp) xs []"

text \<open>
  \<^verbatim>\<open>getConnections\<close> (lines 102-106) as a value: the elements of the sorted copy. The
  same method on a store of array objects, where the copy has an address of its own, is
  \<open>getConnections_store\<close> below.
\<close>

definition getConnections :: "collation \<Rightarrow> manager \<Rightarrow> ref list" where
  "getConnections lc m = array_sort (compareConnections lc m) (connections m)"

text \<open>
  The order \<^verbatim>\<open>_compareConnections\<close> induces. A sort key compared lexicographically
  puts the current connection first; then online, unknown, offline; then the positive
  priorities in ascending order and priority 0 last. Connections of one key are ordered
  by the collation of their URIs.
\<close>

definition status_rank :: "bool option \<Rightarrow> nat" where
  "status_rank s = (case s of Some True \<Rightarrow> 0 | None \<Rightarrow> 1 | Some False \<Rightarrow> 2)"

definition rank_key :: "manager \<Rightarrow> ref \<Rightarrow> nat \<times> nat \<times> nat \<times> nat" where
  "rank_key m c =
     (if Some c = currentConnection m then 0 else 1,
      status_rank (isOnline (heap m ! c)),
      if getPriority m c = 0 then 1 else 0,
      getPriority m c)"

definition ranks_before :: "collation \<Rightarrow> manager \<Rightarrow> ref \<Rightarrow> ref \<Rightarrow> bool" where
  "ranks_before lc m a b =
     (rank_key m a < rank_key m b
      \<or> (rank_key m a = rank_key m b \<and> lc (getUri m a) (getUri m b) \<le> 0))"

section \<open>Probing for the best available connection\<close>

text \<open>
  The values the tier arrays of \<^verbatim>\<open>_getConnectionsInAscendingPriority\<close> can hold: a
  connection object, an array, or \<^verbatim>\<open>undefined\<close>.
\<close>

datatype jsval = ConnV ref | ArrV "jsval list" | UndefV

text \<open>
  The \<^verbatim>\<open>Map\<close> of lines 336-340, as an association list in insertion order: a connection
  is pushed to the array of its priority, which is created at the end when missing.
\<close>

fun map_push :: "(nat \<times> ref list) list \<Rightarrow> nat \<Rightarrow> ref \<Rightarrow> (nat \<times> ref list) list" where
  "map_push [] p c = [(p, [c])]"
| "map_push ((q, cs) # rest) p c =
     (if q = p then (q, cs @ [c]) # rest else (q, cs) # map_push rest p c)"

definition connectionPriorities :: "manager \<Rightarrow> (nat \<times> ref list) list" where
  "connectionPriorities m = foldl (\<lambda>mp c. map_push mp (getPriority m c) c) [] (connections m)"

text \<open>
  \<^verbatim>\<open>parseInt\<close> is a built-in of the language: it turns its argument into a string and
  reads the leading decimal digits of the string. The string of a non-negative integer
  below \<open>10^21\<close> is its decimal digits, which are read back whole. From \<open>10^21\<close> on the
  string is in exponent notation (\<^verbatim>\<open>1e+21\<close>, \<^verbatim>\<open>2.5e+22\<close>), of which \<^verbatim>\<open>parseInt\<close> reads
  the one digit before the point or the exponent. That is the first digit of the number,
  as long as the shortest decimal that denotes the number starts with the digit the number
  starts with, which the model takes for granted.
\<close>

fun leading_digit :: "nat \<Rightarrow> nat" where
  "leading_digit n = (if n < 10 then n else leading_digit (n div 10))"

declare leading_digit.simps [simp del]

definition parseInt :: "nat \<Rightarrow> int" where
  "parseInt p = (if int p < 10 ^ 21 then int p else int (leading_digit p))"

definition ascendingPriorities :: "manager \<Rightarrow> (nat \<times> ref list) list" where
  "ascendingPriorities m =
     array_sort (\<lambda>a b. parseInt (fst a) - parseInt (fst b)) (connectionPriorities m)"

text \<open>
  \<^verbatim>\<open>_getConnectionsInAscendingPriority\<close> (lines 335-346). Line 344 is
  \<^verbatim>\<open>ascendingPrioritiesList.push(ascendingPrioritiesList.splice(0, 1))\<close>: \<^verbatim>\<open>splice(0, 1)\<close>
  removes the first tier and returns the array of the removed elements, so what is pushed
  is an array that holds the first tier, not the first tier.
\<close>

definition getConnectionsInAscendingPriority :: "manager \<Rightarrow> jsval list" where
  "getConnectionsInAscendingPriority m =
     (let ascendingPrioritiesList = map (\<lambda>e. ArrV (map ConnV (snd e))) (ascendingPriorities m)
      in if list_ex (\<lambda>e. fst e = 0) (connectionPriorities m)
         then drop 1 ascendingPrioritiesList @ [ArrV (take 1 ascendingPrioritiesList)]
         else ascendingPrioritiesList)"

text \<open>
  Modelled from the spec: \<^verbatim>\<open>MoneroRpcConnection.checkConnection(timeoutMs)\<close> is not among
  the source files. Section 4.4 gives its contract: it "performs one round-trip against
  the endpoint, updates its reachability/authentication/latency fields as a side effect,
  and returns whether it is usable". The round trip is outside the program; \<open>probe\<close> is
  what it does to a connection: when the returned promise settles, whether it rejects,
  and the status the object has afterwards. A connection is usable when it is reachable
  and not explicitly unauthenticated (the Connected state of section 4.6 and
  \<^verbatim>\<open>isConnected\<close> of section 6, lines 73-75 of the source); the promise resolves with
  whether the connection is usable after the update.
\<close>

record probe =
  settles :: nat
  rejects :: bool
  online :: "bool option"
  authenticated :: "bool option"

type_synonym environment = "nat \<Rightarrow> ref \<Rightarrow> probe"


definition apply_probe :: "environment \<Rightarrow> manager \<Rightarrow> ref \<Rightarrow> manager" where
  "apply_probe env m c =
     m\<lparr>heap := (heap m)[c := (heap m ! c)
          \<lparr>isOnline := online (env (timeoutInMs m) c),
           isAuthenticated := authenticated (env (timeoutInMs m) c)\<rparr>]\<rparr>"

definition usable :: "connection \<Rightarrow> bool" where
  "usable c = (isOnline c = Some True \<and> isAuthenticated c \<noteq> Some False)"

definition rpc_checkConnection :: "environment \<Rightarrow> manager \<Rightarrow> ref \<Rightarrow> (error + bool) \<times> manager" where
  "rpc_checkConnection env m c =
     (if rejects (env (timeoutInMs m) c) then Inl ProbeError
      else Inr (usable (heap (apply_probe env m c) ! c)),
      apply_probe env m c)"

text \<open>A promise, as far as the manager looks at it: when it settles, and how.\<close>

datatype 'a promise = Fulfilled nat 'a | Rejected nat error

fun settle_time :: "'a promise \<Rightarrow> nat" where
  "settle_time (Fulfilled t x) = t"
| "settle_time (Rejected t e) = t"

fun is_fulfilled :: "'a promise \<Rightarrow> bool" where
  "is_fulfilled (Fulfilled t x) = True"
| "is_fulfilled (Rejected t e) = False"

text \<open>
  The promise of lines 126-135 for one element of a tier. For a connection it resolves
  with the connection when the check leaves it online and not unauthenticated, and
  rejects otherwise. For any other value \<^verbatim>\<open>connection.checkConnection\<close> is not a function:
  the call throws inside the executor of \<^verbatim>\<open>new Promise\<close>, which rejects the promise.
\<close>

definition healthy :: "probe \<Rightarrow> bool" where
  "healthy p = (\<not> rejects p \<and> online p = Some True \<and> authenticated p \<noteq> Some False)"

definition check_promise :: "environment \<Rightarrow> manager \<Rightarrow> jsval \<Rightarrow> ref promise" where
  "check_promise env m v =
     (case v of
        ConnV c \<Rightarrow>
          if rejects (env (timeoutInMs m) c) then Rejected (settles (env (timeoutInMs m) c)) ProbeError
          else if online (env (timeoutInMs m) c) = Some True
                  \<and> authenticated (env (timeoutInMs m) c) \<noteq> Some False
          then Fulfilled (settles (env (timeoutInMs m) c)) c
          else Rejected (settles (env (timeoutInMs m) c)) NotHealthy
      | _ \<Rightarrow> Rejected 0 (TypeError ''connection.checkConnection is not a function''))"

text \<open>
  \<^verbatim>\<open>Promise.any\<close> is a built-in of the language: it fulfils with the first promise to
  fulfil, and rejects with an \<^verbatim>\<open>AggregateError\<close> once all have rejected (at once for the
  empty array).
\<close>

fun earliest :: "'a promise \<Rightarrow> 'a promise list \<Rightarrow> 'a promise" where
  "earliest p [] = p"
| "earliest p (q # qs) = earliest (if settle_time q < settle_time p then q else p) qs"

definition promise_any :: "'a promise list \<Rightarrow> 'a promise" where
  "promise_any ps =
     (case filter is_fulfilled ps of
        [] \<Rightarrow> Rejected (fold max (map settle_time ps) 0) AggregateError
      | f # fs \<Rightarrow> earliest f fs)"

text \<open>
  Modelled from the spec: \<^verbatim>\<open>GenUtils.arrayContains\<close> is not among the source files; an
  element is excluded when it is present in the array of excluded connections.
\<close>

definition arrayContains :: "jsval list \<Rightarrow> jsval \<Rightarrow> bool" where
  "arrayContains arr v = (v \<in> set arr)"

text \<open>
  The checks that have run to their end when the tier's \<^verbatim>\<open>Promise.any\<close> settles at time
  \<open>t\<close> have updated their connections; the others are not waited for.
\<close>

fun probed :: "environment \<Rightarrow> manager \<Rightarrow> nat \<Rightarrow> jsval list \<Rightarrow> ref list" where
  "probed env m t [] = []"
| "probed env m t (ConnV c # vs) =
     (if settles (env (timeoutInMs m) c) \<le> t then c # probed env m t vs else probed env m t vs)"
| "probed env m t (v # vs) = probed env m t vs"

definition apply_probes :: "environment \<Rightarrow> manager \<Rightarrow> ref list \<Rightarrow> manager" where
  "apply_probes env m cs = fold (\<lambda>c m'. apply_probe env m' c) cs m"

text \<open>
  The \<^verbatim>\<open>try\<close> block of lines 118-140 for one tier: the connection it returns, or the error
  it throws. A tier that is not an array cannot be iterated. Modelled from the spec:
  \<^verbatim>\<open>ThreadPool\<close> is not among the source files; a pool of the size of the tier launches
  one check per submitted function at once and hands back the promise of each.
\<close>

definition try_tier ::
  "environment \<Rightarrow> manager \<Rightarrow> jsval list option \<Rightarrow> jsval \<Rightarrow> (error + ref) \<times> manager" where
  "try_tier env m excludedConnections tier =
     (case tier of
        ArrV prioritizedConnections \<Rightarrow>
          (let candidates =
                 filter (\<lambda>connection.
                     \<not> (case excludedConnections of None \<Rightarrow> False
                        | Some ex \<Rightarrow> arrayContains ex connection))
                   prioritizedConnections;
               checkPromises = map (check_promise env m) candidates
           in case promise_any checkPromises of
                Fulfilled t firstAvailable \<Rightarrow>
                  (Inr firstAvailable, apply_probes env m (probed env m t candidates))
              | Rejected t err \<Rightarrow> (Inl err, apply_probes env m (probed env m t candidates)))
      | _ \<Rightarrow> (Inl (TypeError ''prioritizedConnections is not iterable''), m))"

text \<open>
  The loop over the tiers with its \<^verbatim>\<open>catch\<close> (lines 117, 141-145): an
  \<^verbatim>\<open>AggregateError\<close> moves on to the next tier, any other error is thrown again inside a
  \<^verbatim>\<open>MoneroError\<close>.
\<close>

fun error_text :: "error \<Rightarrow> string" where
  "error_text (MoneroError s) = s"
| "error_text (ReferenceError s) = ''ReferenceError: '' @ s"
| "error_text (TypeError s) = ''TypeError: '' @ s"
| "error_text AggregateError = ''AggregateError: All promises were rejected''"
| "error_text ProbeError = ''Error''"
| "error_text NotHealthy = ''undefined''"
| "error_text (HandlerError n) = ''Error''"

fun probe_tiers ::
  "environment \<Rightarrow> manager \<Rightarrow> jsval list option \<Rightarrow> jsval list \<Rightarrow> (error + ref option) \<times> manager" where
  "probe_tiers env m ex [] = (Inr None, m)"
| "probe_tiers env m ex (tier # tiers) =
     (case try_tier env m ex tier of
        (Inr firstAvailable, m1) \<Rightarrow> (Inr (Some firstAvailable), m1)
      | (Inl err, m1) \<Rightarrow>
          if err = AggregateError then probe_tiers env m1 ex tiers
          else (Inl (MoneroError (error_text err)), m1))"

text \<open>\<^verbatim>\<open>getBestAvailableConnection\<close> (lines 114-146).\<close>

definition getBestAvailableConnection ::
  "environment \<Rightarrow> manager \<Rightarrow> jsval list option \<Rightarrow> (error + ref option) \<times> manager" where
  "getBestAvailableConnection env m excludedConnections =
     probe_tiers env m excludedConnections (getConnectionsInAscendingPriority m)"

text \<open>
  Two networks in which the same checks pass, and pass at the same time: they may differ
  in how a check fails (by rejecting, or by leaving the connection unhealthy) and in when
  it fails.
\<close>

definition same_healthy :: "environment \<Rightarrow> environment \<Rightarrow> nat \<Rightarrow> bool" where
  "same_healthy env env' t =
     (\<forall>c. healthy (env' t c) = healthy (env t c)
          \<and> (healthy (env t c) \<longrightarrow> settles (env' t c) = settles (env t c)))"

section \<open>The check cycle\<close>

text \<open>
  Lines 207-210: with auto switch on and the checked connection missing, not online or
  unauthenticated, the best available connection other than it becomes current. \<open>r\<close> is
  what line 206 left behind.
\<close>

definition auto_switch :: "environment \<Rightarrow> ref option \<Rightarrow> result \<Rightarrow> result" where
  "auto_switch env connection r =
     (if autoSwitch (after r)
         \<and> (case connection of
               None \<Rightarrow> True
             | Some c \<Rightarrow> isOnline (heap (after r) ! c) \<noteq> Some True
                         \<or> isAuthenticated (heap (after r) ! c) = Some False)
      then (case getBestAvailableConnection env (after r)
                   (Some [case connection of None \<Rightarrow> UndefV | Some c \<Rightarrow> ConnV c]) of
              (Inl e, m1) \<Rightarrow> r\<lparr>thrown := Some e, after := m1\<rparr>
            | (Inr None, m1) \<Rightarrow> r\<lparr>after := m1\<rparr>
            | (Inr (Some bestConnection), m1) \<Rightarrow>
                \<lparr>thrown = thrown (setConnection m1 (Conn bestConnection)),
                 after = after (setConnection m1 (Conn bestConnection)),
                 notified = notified r @ notified (setConnection m1 (Conn bestConnection))\<rparr>)
      else r)"

text \<open>
  \<^verbatim>\<open>checkConnection\<close> (lines 204-212). Line 206 awaits the promise of
  \<^verbatim>\<open>_onConnectionChanged\<close>; \<open>awaited\<close> is what the await yields: \<open>None\<close> when the promise
  fulfils, the error when it rejects (the dispatch to the listeners is \<open>dispatch\<close> below).
\<close>

definition checkConnection ::
  "environment \<Rightarrow> (ref option \<Rightarrow> error option) \<Rightarrow> manager \<Rightarrow> result" where
  "checkConnection env awaited m =
     (case currentConnection m of
        None \<Rightarrow> auto_switch env None (returns m)
      | Some connection \<Rightarrow>
          (case rpc_checkConnection env m connection of
             (Inl e, m1) \<Rightarrow> throws e m1
           | (Inr isUsable, m1) \<Rightarrow>
               if isUsable
               then (case awaited (Some connection) of
                       Some e \<Rightarrow> (onConnectionChanged (Some connection) (returns m1))\<lparr>thrown := Some e\<rparr>
                     | None \<Rightarrow>
                         auto_switch env (Some connection)
                           (onConnectionChanged (Some connection) (returns m1)))
               else auto_switch env (Some connection) (returns m1)))"


text \<open>
  \<^verbatim>\<open>checkConnections\<close> (lines 219-243) checks every connection of \<^verbatim>\<open>getConnections()\<close>
  and swallows every error. The function given to the pool at line 234 is not an arrow
  function, so the \<^verbatim>\<open>this\<close> of line 236 is not the manager and the comparison with
  \<^verbatim>\<open>this._currentConnection\<close> never lets \<^verbatim>\<open>_onConnectionChanged\<close> be called: the method
  updates the status of the connections and notifies nobody.
\<close>

definition checkConnections :: "collation \<Rightarrow> environment \<Rightarrow> manager \<Rightarrow> result" where
  "checkConnections lc env m = returns (apply_probes env m (getConnections lc m))"

section \<open>Listeners and the remaining setters\<close>

text \<open>
  \<^verbatim>\<open>addListener\<close> and \<^verbatim>\<open>removeListener\<close> (lines 24-38). Modelled from the spec:
  \<^verbatim>\<open>GenUtils.remove\<close> is not among the source files; it takes the value out of the array and
  tells whether it was there.
\<close>

definition addListener :: "manager \<Rightarrow> nat \<Rightarrow> manager" where
  "addListener m l = m\<lparr>listeners := listeners m @ [l]\<rparr>"

definition removeListener :: "manager \<Rightarrow> nat \<Rightarrow> error + manager" where
  "removeListener m l =
     (if l \<in> set (listeners m) then Inr (m\<lparr>listeners := removeAll l (listeners m)\<rparr>)
      else Inl (MoneroError ''Monero connection manager does not contain listener to remove''))"

definition setAutoSwitch :: "manager \<Rightarrow> bool \<Rightarrow> manager" where
  "setAutoSwitch m b = m\<lparr>autoSwitch := b\<rparr>"

definition setTimeout :: "manager \<Rightarrow> nat \<Rightarrow> manager" where
  "setTimeout m t = m\<lparr>timeoutInMs := t\<rparr>"

text \<open>
  The operations of the manager that can change it or the objects it holds, and the
  manager each of them leaves behind. The getters change nothing,
  \<^verbatim>\<open>getPeerConnections\<close> only throws, and \<^verbatim>\<open>startCheckingConnection\<close> and
  \<^verbatim>\<open>stopCheckingConnection\<close> (lines 251-278) start and stop a timer whose every firing is
  a \<^verbatim>\<open>checkConnection\<close>.
\<close>

datatype operation =
    AddListener nat
  | RemoveListener nat
  | AddConnection ref
  | RemoveConnection string
  | SetConnection uriOrConnection
  | GetBestAvailableConnection "jsval list option"
  | CheckConnection
  | CheckConnections
  | SetAutoSwitch bool
  | SetTimeout nat
  | Disconnect

fun step :: "collation \<Rightarrow> environment \<Rightarrow> (ref option \<Rightarrow> error option) \<Rightarrow> manager \<Rightarrow> operation \<Rightarrow> manager" where
  "step lc env awaited m (AddListener l) = addListener m l"
| "step lc env awaited m (RemoveListener l) =
     (case removeListener m l of Inl e \<Rightarrow> m | Inr m1 \<Rightarrow> m1)"
| "step lc env awaited m (AddConnection c) =
     (case addConnection m c of Inl e \<Rightarrow> m | Inr m1 \<Rightarrow> m1)"
| "step lc env awaited m (RemoveConnection u) = snd (removeConnection m u)"
| "step lc env awaited m (SetConnection x) = after (setConnection m x)"
| "step lc env awaited m (GetBestAvailableConnection ex) = snd (getBestAvailableConnection env m ex)"
| "step lc env awaited m CheckConnection = after (checkConnection env awaited m)"
| "step lc env awaited m CheckConnections = after (checkConnections lc env m)"
| "step lc env awaited m (SetAutoSwitch b) = setAutoSwitch m b"
| "step lc env awaited m (SetTimeout t) = setTimeout m t"
| "step lc env awaited m Disconnect = after (disconnect m)"

text \<open>
  The argument of an operation is a reference to an object that exists.
\<close>

fun operation_ok :: "manager \<Rightarrow> operation \<Rightarrow> bool" where
  "operation_ok m (AddConnection c) = (c < length (heap m))"
| "operation_ok m (SetConnection (Conn c)) = (c < length (heap m))"
| "operation_ok m other = True"

text \<open>No two registered connections share a URI.\<close>

definition uri_unique :: "manager \<Rightarrow> bool" where
  "uri_unique m = distinct (map (getUri m) (connections m))"

section \<open>Notifying the listeners\<close>

text \<open>
  A listener is code of the caller. What the model keeps of a call of its
  \<^verbatim>\<open>onConnectionChanged\<close>: the calls of \<^verbatim>\<open>addListener\<close> and \<^verbatim>\<open>removeListener\<close> it makes on
  the manager before it returns, and then either the exception it throws or the promise
  it returns (a handler that returns a plain value counts as fulfilled at once).
\<close>

datatype listener_action = Adds nat | Removes nat

datatype outcome = Returns "unit promise" | Throws error

record handler =
  actions :: "listener_action list"
  outcome :: outcome

type_synonym behaviour = "nat \<Rightarrow> handler"

text \<open>The calls a handler makes on the manager; an exception of \<^verbatim>\<open>removeListener\<close> ends them.\<close>

fun run_actions :: "manager \<Rightarrow> listener_action list \<Rightarrow> error option \<times> manager" where
  "run_actions m [] = (None, m)"
| "run_actions m (Adds l # as) = run_actions (addListener m l) as"
| "run_actions m (Removes l # as) =
     (case removeListener m l of Inl e \<Rightarrow> (Some e, m) | Inr m1 \<Rightarrow> run_actions m1 as)"

text \<open>
  \<^verbatim>\<open>Promise.all\<close> is a built-in of the language: it fulfils once every promise has
  fulfilled, and rejects with the reason of the first promise to reject, as soon as that
  one rejects.
\<close>

definition promise_all :: "unit promise list \<Rightarrow> unit promise" where
  "promise_all ps =
     (case filter (\<lambda>p. \<not> is_fulfilled p) ps of
        [] \<Rightarrow> Fulfilled (fold max (map settle_time ps) 0) ()
      | r # rs \<Rightarrow> earliest r rs)"

text \<open>
  What a dispatch leaves behind: the handlers it called, in order, each with its
  argument; the manager; and the promise the \<^verbatim>\<open>async\<close> method returns.
\<close>

record dispatched =
  invoked :: "(nat \<times> ref option) list"
  final :: manager
  settled :: "unit promise"

text \<open>
  \<^verbatim>\<open>_onConnectionChanged\<close> (lines 329-333). The \<^verbatim>\<open>for ... of\<close> loop of line 331 walks the
  array \<^verbatim>\<open>this._listeners\<close> itself by index and compares the index with the length of
  the array at every step, so it sees what the handlers add and remove. A handler that
  throws ends the loop, and the \<^verbatim>\<open>async\<close> method turns the exception into a rejected
  promise. A handler may add a listener at every call, so the loop may run forever: the
  first argument bounds the number of iterations, and \<open>None\<close> says the bound was reached.
\<close>

fun dispatch_loop ::
  "nat \<Rightarrow> behaviour \<Rightarrow> ref option \<Rightarrow> manager \<Rightarrow> nat \<Rightarrow> (nat \<times> ref option) list
   \<Rightarrow> unit promise list \<Rightarrow> dispatched option" where
  "dispatch_loop 0 beh connection m i called promises = None"
| "dispatch_loop (Suc k) beh connection m i called promises =
     (if i < length (listeners m)
      then (case run_actions m (actions (beh (listeners m ! i))) of
              (Some e, m1) \<Rightarrow>
                Some \<lparr>invoked = called @ [(listeners m ! i, connection)], final = m1,
                      settled = Rejected 0 e\<rparr>
            | (None, m1) \<Rightarrow>
                (case outcome (beh (listeners m ! i)) of
                   Throws e \<Rightarrow>
                     Some \<lparr>invoked = called @ [(listeners m ! i, connection)], final = m1,
                           settled = Rejected 0 e\<rparr>
                 | Returns p \<Rightarrow>
                     dispatch_loop k beh connection m1 (Suc i)
                       (called @ [(listeners m ! i, connection)]) (promises @ [p])))
      else Some \<lparr>invoked = called, final = m, settled = promise_all promises\<rparr>)"

definition dispatch :: "nat \<Rightarrow> behaviour \<Rightarrow> manager \<Rightarrow> ref option \<Rightarrow> dispatched option" where
  "dispatch fuel beh m connection = dispatch_loop fuel beh connection m 0 [] []"

text \<open>
  For the statements about the dispatch: the promise a call of a handler stands for, and
  the listeners of a list that are called when nobody touches the list, which are those
  up to the first whose handler throws, together with the exception.
\<close>

definition returned :: "handler \<Rightarrow> unit promise" where
  "returned h = (case outcome h of Returns p \<Rightarrow> p | Throws e \<Rightarrow> Rejected 0 e)"

fun until_throw :: "behaviour \<Rightarrow> nat list \<Rightarrow> nat list \<times> error option" where
  "until_throw beh [] = ([], None)"
| "until_throw beh (l # ls) =
     (case outcome (beh l) of
        Throws e \<Rightarrow> ([l], Some e)
      | Returns p \<Rightarrow> (l # fst (until_throw beh ls), snd (until_throw beh ls)))"

definition adds_only :: "behaviour \<Rightarrow> bool" where
  "adds_only beh = (\<forall>l. list_all (\<lambda>a. case a of Adds x \<Rightarrow> True | Removes x \<Rightarrow> False) (actions (beh l)))"

section \<open>Arrays as objects\<close>

text \<open>
  Whether the caller of \<^verbatim>\<open>getConnections\<close> can reach the array of the manager is a
  question about array objects. Here the arrays live in a store, an array object is its
  index in the store, and the field \<^verbatim>\<open>this._connections\<close> is an address \<open>a\<close>.

  Modelled from the spec: \<^verbatim>\<open>GenUtils.copyArray\<close> is not among the source files; the spec
  says nothing about it beyond its use for presentation, and the model is what its name
  says: it allocates a new array with the elements of its argument.
\<close>

definition copyArray :: "ref list list \<Rightarrow> nat \<Rightarrow> ref list list \<times> nat" where
  "copyArray arrays a = (arrays @ [arrays ! a], length arrays)"

text \<open>\<^verbatim>\<open>Array.prototype.sort\<close> sorts the array object in place.\<close>

definition sort_in_place :: "(ref \<Rightarrow> ref \<Rightarrow> int) \<Rightarrow> ref list list \<Rightarrow> nat \<Rightarrow> ref list list" where
  "sort_in_place cmp arrays a = arrays[a := array_sort cmp (arrays ! a)]"

text \<open>
  \<^verbatim>\<open>getConnections\<close> (lines 102-106) on the store: the store it leaves and the address
  it returns.
\<close>

definition getConnections_store ::
  "collation \<Rightarrow> manager \<Rightarrow> ref list list \<Rightarrow> nat \<Rightarrow> ref list list \<times> nat" where
  "getConnections_store lc m arrays a =
     (case copyArray arrays a of
        (arrays1, sortedConnections) \<Rightarrow>
          (sort_in_place (compareConnections lc m) arrays1 sortedConnections, sortedConnections))"

text \<open>A sequence of operations, each with an argument that exists when its turn comes.\<close>

fun run ::
  "collation \<Rightarrow> environment \<Rightarrow> (ref option \<Rightarrow> error option) \<Rightarrow> manager \<Rightarrow> operation list \<Rightarrow> manager" where
  "run lc env awaited m [] = m"
| "run lc env awaited m (op # ops) = run lc env awaited (step lc env awaited m op) ops"

fun operations_ok ::
  "collation \<Rightarrow> environment \<Rightarrow> (ref option \<Rightarrow> error option) \<Rightarrow> manager \<Rightarrow> operation list \<Rightarrow> bool" where
  "operations_ok lc env awaited m [] = True"
| "operations_ok lc env awaited m (op # ops) =
     (operation_ok m op \<and> operations_ok lc env awaited (step lc env awaited m op) ops)"

section \<open>Auxiliary predicates of the proofs\<close>

text \<open>
  A tier is an array whose connection elements are all in \<open>S\<close>; and \<open>m'\<close> differs from \<open>m\<close>
  at most in the status fields of the objects.
\<close>

definition tier_within :: "ref set \<Rightarrow> jsval \<Rightarrow> bool" where
  "tier_within S tier = (case tier of ArrV vs \<Rightarrow> (\<forall>c. ConnV c \<in> set vs \<longrightarrow> c \<in> S) | _ \<Rightarrow> False)"

definition status_only :: "manager \<Rightarrow> manager \<Rightarrow> bool" where
  "status_only m m' =
     (timeoutInMs m' = timeoutInMs m \<and> connections m' = connections m
      \<and> listeners m' = listeners m \<and> currentConnection m' = currentConnection m
      \<and> autoSwitch m' = autoSwitch m \<and> length (heap m') = length (heap m)
      \<and> (\<forall>x. uri (heap m' ! x) = uri (heap m ! x) \<and> username (heap m' ! x) = username (heap m ! x)
              \<and> password (heap m' ! x) = password (heap m ! x)
              \<and> priority (heap m' ! x) = priority (heap m ! x)))"

section \<open>Example managers, networks and listeners\<close>

text \<open>A connection without credentials, for the examples.\<close>

definition conn :: "string \<Rightarrow> nat \<Rightarrow> bool option \<Rightarrow> connection" where
  "conn u p on =
     \<lparr>uri = u, username = None, password = None, priority = p, isOnline = on,
      isAuthenticated = None\<rparr>"

text \<open>
  Three online connections \<open>A\<close> (priority 1), \<open>B\<close> (priority 2), \<open>C\<close> (priority 0) at the
  references 0, 1, 2, none of them current; and an offline and an unknown connection of
  the same priority.
\<close>

definition ex_rank :: manager where
  "ex_rank =
     (new_manager [conn ''A'' 1 (Some True), conn ''B'' 2 (Some True), conn ''C'' 0 (Some True)])
     \<lparr>connections := [0, 1, 2]\<rparr>"

definition ex_status :: manager where
  "ex_status =
     (new_manager [conn ''F'' 1 (Some False), conn ''U'' 1 None])\<lparr>connections := [0, 1]\<rparr>"

text \<open>
  A collation for the examples: the strings are compared letter by letter without regard
  to the case of the letters \<open>A\<close> to \<open>Z\<close>. And two online connections \<open>B\<close> and \<open>a\<close> of one
  priority at the references 0 and 1, registered in this order.
\<close>

definition lower :: "char \<Rightarrow> char" where
  "lower c = (if CHR ''A'' \<le> c \<and> c \<le> CHR ''Z'' then char_of (of_char c + (32::nat)) else c)"

definition ignoring_case :: collation where
  "ignoring_case a b =
     (if map lower a < map lower b then - 1 else if map lower a = map lower b then 0 else 1)"

definition ex_collate :: manager where
  "ex_collate =
     (new_manager [conn ''B'' 1 (Some True), conn ''a'' 1 (Some True)])\<lparr>connections := [0, 1]\<rparr>"

text \<open>
  The registry \<open>A\<close> (priority 1) and \<open>Z\<close> (priority 0) at the references 0 and 1, and a
  network in which \<open>A\<close> is unreachable and \<open>Z\<close> answers.
\<close>

definition ex_tiers :: manager where
  "ex_tiers = (new_manager [conn ''A'' 1 None, conn ''Z'' 0 None])\<lparr>connections := [0, 1]\<rparr>"

definition nothing_answers :: environment where
  "nothing_answers t c = \<lparr>settles = t, rejects = True, online = None, authenticated = None\<rparr>"

definition Z_answers_A_fails :: environment where
  "Z_answers_A_fails t c =
     (if c = 1 then \<lparr>settles = 10, rejects = False, online = Some True, authenticated = Some True\<rparr>
      else \<lparr>settles = 3, rejects = True, online = None, authenticated = None\<rparr>)"

definition only_Z_answers :: environment where
  "only_Z_answers t c =
     (if c = 1 then \<lparr>settles = 10, rejects = False, online = Some True, authenticated = Some True\<rparr>
      else \<lparr>settles = t, rejects = False, online = Some False, authenticated = None\<rparr>)"

text \<open>A registry with one connection, which is the current one.\<close>

definition ex_single :: manager where
  "ex_single = (new_manager [conn ''a'' 0 None])\<lparr>connections := [0], currentConnection := Some 0\<rparr>"

text \<open>
  A registry whose single connection \<open>0\<close> is current, and an unregistered object \<open>1\<close> with
  the same URI and username but another password.
\<close>

definition ex_password :: manager where
  "ex_password =
     (new_manager
        [\<lparr>uri = ''a'', username = Some ''user'', password = Some ''old'', priority = 1,
          isOnline = None, isAuthenticated = None\<rparr>,
         \<lparr>uri = ''a'', username = Some ''user'', password = Some ''new'', priority = 1,
          isOnline = None, isAuthenticated = None\<rparr>])
     \<lparr>connections := [0], currentConnection := Some 0\<rparr>"

text \<open>
  A registry whose current connection \<open>A\<close> is online, with auto switch on; and a network
  in which every connection answers and is left online with unknown authentication.
\<close>

definition ex_cycle :: manager where
  "ex_cycle =
     (new_manager [conn ''A'' 1 (Some True), conn ''Z'' 2 None])
     \<lparr>connections := [0, 1], currentConnection := Some 0, autoSwitch := True\<rparr>"


text \<open>A manager with the given listeners, and handlers.\<close>

definition with_listeners :: "nat list \<Rightarrow> manager" where
  "with_listeners ls = (new_manager [])\<lparr>listeners := ls\<rparr>"


definition quiet :: handler where
  "quiet = \<lparr>actions = [], outcome = Returns (Fulfilled 5 ())\<rparr>"

definition adds_listener_2 :: behaviour where
  "adds_listener_2 l = (if l = 1 then quiet\<lparr>actions := [Adds 2]\<rparr> else quiet)"

definition first_throws :: behaviour where
  "first_throws l = (if l = 1 then quiet\<lparr>outcome := Throws (HandlerError 1)\<rparr> else quiet)"

definition first_rejects :: behaviour where
  "first_rejects l =
     (if l = 1 then quiet\<lparr>outcome := Returns (Rejected 1 (HandlerError 1))\<rparr>
      else if l = 2 then quiet
      else quiet\<lparr>outcome := Returns (Rejected 2 (HandlerError l))\<rparr>)"

section \<open>Proofs: removal\<close>

lemma removeConnection_registered:
  assumes "getConnectionByUri m u = Some c"
  shows "removeConnection m u = (Some (ReferenceError ''connections is not defined''), m)"
  using assms by (simp add: removeConnection_def bound_identifiers_def)

lemma removeConnection_unknown:
  assumes "getConnectionByUri m u = None"
  shows "removeConnection m u = (Some (MoneroError (''No connection exists with URI: '' @ u)), m)"
  using assms by (simp add: removeConnection_def)

text \<open>
  C1. Removing a registered URI should succeed and take the connection out of the
  registry, clearing the current reference when it was current. At the registry
  holding the single, current connection \<open>a\<close> the call throws a reference error instead,
  and afterwards \<open>a\<close> is still registered and still current.
\<close>

theorem C1_removeConnection_registered_throws:
  "getConnectionByUri ex_single ''a'' = Some 0
   \<and> fst (removeConnection ex_single ''a'') = Some (ReferenceError ''connections is not defined'')
   \<and> getConnectionByUri (snd (removeConnection ex_single ''a'')) ''a'' = Some 0
   \<and> currentConnection (snd (removeConnection ex_single ''a'')) = Some 0"
  by (simp add: removeConnection_def bound_identifiers_def
      getConnectionByUri_def getUri_def ex_single_def new_manager_def conn_def)

section \<open>Proofs: selecting the current connection\<close>

lemma state_changed_refl [simp]: "\<not> state_changed m m"
  by (simp add: state_changed_def list_ex_iff)

lemma find_None_list_ex: "find P xs = None \<Longrightarrow> \<not> list_ex P xs"
  by (simp add: find_None_iff list_ex_iff)

lemma find_Some_D: "find P xs = Some x \<Longrightarrow> x \<in> set xs \<and> P x"
  by (auto simp: find_Some_iff)



lemma getConnectionByUri_current [simp]:
  "getConnectionByUri (m\<lparr>currentConnection := x\<rparr>) u = getConnectionByUri m u"
  by (simp add: getConnectionByUri_def getUri_def)










text \<open>
  C4. A connection value whose URI is registered should have its credentials written
  over the registered connection's, also when only the password differs. At
  \<open>ex_password\<close> the registered, current connection \<open>0\<close> has password \<open>old\<close> and the
  supplied object \<open>1\<close> has the same URI and username and password \<open>new\<close>: line 190
  compares the supplied password with itself, the update is skipped, and the
  registered connection keeps password \<open>old\<close>.
\<close>

theorem C4_setConnection_keeps_old_password:
  "getConnectionByUri ex_password (getUri ex_password 1) = Some 0
   \<and> getUsername ex_password 1 = getUsername ex_password 0
   \<and> getPassword ex_password 1 = Some ''new''
   \<and> thrown (setConnection ex_password (Conn 1)) = None
   \<and> getPassword (after (setConnection ex_password (Conn 1))) 0 = Some ''old''
   \<and> notified (setConnection ex_password (Conn 1)) = []"
  by (simp add: setConnection_def setConnection_object_def returns_def ex_password_def
      new_manager_def DEFAULT_TIMEOUT_def getConnectionByUri_def getUri_def getUsername_def
      getPassword_def)




section \<open>Proofs: ranking\<close>

lemma set_insert_by [simp]: "set (insert_by cmp x ys) = insert x (set ys)"
  by (induction ys) auto

lemma set_array_sort [simp]: "set (array_sort cmp xs) = set xs"
  by (induction xs) (simp_all add: array_sort_def)

lemma mset_insert_by [simp]: "mset (insert_by cmp x ys) = add_mset x (mset ys)"
  by (induction ys) simp_all

lemma mset_array_sort [simp]: "mset (array_sort cmp xs) = mset xs"
  by (induction xs) (simp_all add: array_sort_def)

text \<open>The insertion sort by a total and transitive comparison returns a sorted list.\<close>

lemma sorted_wrt_insert_by:
  assumes tot: "\<And>x y. R x y \<or> R y x"
    and tr: "\<And>x y z. R x y \<Longrightarrow> R y z \<Longrightarrow> R x z"
    and eq: "\<And>x y. (cmp x y \<le> 0) = R x y"
  shows "sorted_wrt R ys \<Longrightarrow> sorted_wrt R (insert_by cmp x ys)"
proof (induction ys)
  case Nil
  then show ?case by simp
next
  case (Cons y ys)
  show ?case
  proof (cases "cmp x y \<le> 0")
    case True
    then have xy: "R x y" by (simp add: eq)
    have "R x z" if "z \<in> set ys" for z
      using Cons.prems that tr[OF xy, of z] by auto
    with xy Cons.prems True show ?thesis by simp
  next
    case False
    then have "\<not> R x y" by (simp add: eq)
    with tot[of x y] have yx: "R y x" by simp
    from Cons.prems have "sorted_wrt R ys" by simp
    from Cons.IH[OF this] yx Cons.prems False show ?thesis by simp
  qed
qed

lemma sorted_wrt_array_sort:
  assumes tot: "\<And>x y. R x y \<or> R y x"
    and tr: "\<And>x y z. R x y \<Longrightarrow> R y z \<Longrightarrow> R x z"
    and eq: "\<And>x y. (cmp x y \<le> 0) = R x y"
  shows "sorted_wrt R (array_sort cmp xs)"
proof (induction xs)
  case Nil
  then show ?case by (simp add: array_sort_def)
next
  case (Cons x xs)
  from sorted_wrt_insert_by[of R cmp "array_sort cmp xs" x, OF tot tr eq Cons.IH]
  show ?case by (simp add: array_sort_def)
qed

text \<open>\<^verbatim>\<open>_compareConnections\<close> puts \<open>a\<close> before or with \<open>b\<close> exactly when \<open>a\<close> ranks before \<open>b\<close>.\<close>

lemma compareConnections_le:
  assumes "consistent_collation lc"
  shows "(compareConnections lc m a b \<le> 0) = ranks_before lc m a b"
proof (cases "Some a = currentConnection m")
  case True
  show ?thesis
  proof (cases "a = b")
    case True
    from assms have "lc (getUri m a) (getUri m a) \<le> 0"
      unfolding consistent_collation_def by blast
    with True \<open>Some a = currentConnection m\<close> show ?thesis
      by (simp add: compareConnections_def ranks_before_def)
  next
    case False
    with \<open>Some a = currentConnection m\<close> have "Some b \<noteq> currentConnection m" by (metis option.inject)
    with \<open>Some a = currentConnection m\<close> show ?thesis
      by (simp add: compareConnections_def ranks_before_def rank_key_def)
  qed
next
  case na: False
  show ?thesis
  proof (cases "Some b = currentConnection m")
    case True
    with na show ?thesis by (auto simp: compareConnections_def ranks_before_def rank_key_def)
  next
    case nb: False
    show ?thesis
    proof (cases "isOnline (heap m ! a) = isOnline (heap m ! b)")
      case True
      with na nb show ?thesis
        by (auto simp: compareConnections_def ranks_before_def rank_key_def)
    next
      case False
      with na nb show ?thesis
        by (cases "isOnline (heap m ! a)"; cases "isOnline (heap m ! b)")
           (auto simp: compareConnections_def ranks_before_def rank_key_def status_rank_def)
    qed
  qed
qed

lemma ranks_before_total:
  assumes "consistent_collation lc"
  shows "ranks_before lc m a b \<or> ranks_before lc m b a"
proof -
  from assms have "lc (getUri m a) (getUri m b) \<le> 0 \<or> lc (getUri m b) (getUri m a) \<le> 0"
    unfolding consistent_collation_def by blast
  moreover have "rank_key m a < rank_key m b \<or> rank_key m a = rank_key m b
      \<or> rank_key m b < rank_key m a"
    by (rule less_linear)
  ultimately show ?thesis unfolding ranks_before_def by metis
qed

lemma ranks_before_trans:
  assumes "consistent_collation lc" and "ranks_before lc m a b" and "ranks_before lc m b c"
  shows "ranks_before lc m a c"
proof -
  have tr: "lc x y \<le> 0 \<Longrightarrow> lc y z \<le> 0 \<Longrightarrow> lc x z \<le> 0" for x y z
    using assms(1) unfolding consistent_collation_def by blast
  show ?thesis
  proof (cases "rank_key m a = rank_key m b \<and> rank_key m b = rank_key m c")
    case True
    with assms(2,3) have "lc (getUri m a) (getUri m b) \<le> 0" "lc (getUri m b) (getUri m c) \<le> 0"
      by (simp_all add: ranks_before_def)
    from tr[OF this] True show ?thesis by (simp add: ranks_before_def)
  next
    case False
    from assms(2,3) have "rank_key m a \<le> rank_key m b" "rank_key m b \<le> rank_key m c"
      by (auto simp: ranks_before_def)
    with False have "rank_key m a < rank_key m c"
      by (metis order.strict_iff_order order.trans antisym)
    then show ?thesis by (simp add: ranks_before_def)
  qed
qed

lemma getConnections_sorted:
  assumes "consistent_collation lc"
  shows "sorted_wrt (ranks_before lc m) (getConnections lc m)"
  unfolding getConnections_def
  by (rule sorted_wrt_array_sort[of "ranks_before lc m" "compareConnections lc m"])
     (rule ranks_before_total[OF assms], erule (1) ranks_before_trans[OF assms],
      rule compareConnections_le[OF assms])

text \<open>
  C3 (as the claim states it). Whatever the collation, the three online connections \<open>A\<close>
  (priority 1), \<open>B\<close> (priority 2), \<open>C\<close> (priority 0) are not returned in the order \<open>B\<close>,
  \<open>A\<close>, \<open>C\<close>; and of an offline and an unknown connection of one priority the offline one
  does not come first.
\<close>

theorem C3_order_counterexample:
  "\<forall>lc. getConnections lc ex_rank \<noteq> [1, 0, 2] \<and> getConnections lc ex_status \<noteq> [0, 1]"
  by (simp add: getConnections_def array_sort_def compareConnections_def ex_rank_def
      ex_status_def new_manager_def conn_def getPriority_def getUri_def)

text \<open>
  C3 (amended). \<^verbatim>\<open>getConnections\<close> returns the three connections in the order \<open>A\<close>, \<open>B\<close>,
  \<open>C\<close>. For every manager the result holds the registered connections, each as often as
  the registry; and, when the collation of \<^verbatim>\<open>localeCompare\<close> orders the strings
  consistently, the comparison of two connections is their ranking and the result
  ascends in it: the current connection first, then online before unknown before
  offline, then ascending priority with priority 0 last, then the URIs in the order of
  the collation.
\<close>

theorem C3_getConnections_order:
  assumes "consistent_collation lc"
  shows "getConnections lc ex_rank = [0, 1, 2]
   \<and> mset (getConnections lc m) = mset (connections m)
   \<and> (compareConnections lc m a b \<le> 0) = ranks_before lc m a b
   \<and> sorted_wrt (ranks_before lc m) (getConnections lc m)"
proof -
  have "getConnections lc ex_rank = [0, 1, 2]"
    by (simp add: getConnections_def array_sort_def compareConnections_def ex_rank_def
        new_manager_def conn_def getPriority_def getUri_def)
  moreover have "mset (getConnections lc m) = mset (connections m)"
    by (simp add: getConnections_def)
  ultimately show ?thesis
    using compareConnections_le[OF assms, of m a b] getConnections_sorted[OF assms, of m]
    by simp
qed

text \<open>
  C3 (amended) with the collation that ignores the case of the letters, which is
  consistent. Of the offline and the unknown connection the unknown one comes first. The
  connections \<open>B\<close> and \<open>a\<close> of one status and priority come back as \<open>a\<close>, \<open>B\<close>: in the order
  of the collation, not of the character codes.
\<close>

theorem C3_witness:
  "consistent_collation ignoring_case
   \<and> getConnections ignoring_case ex_status = [1, 0]
   \<and> sorted_wrt (ranks_before ignoring_case ex_status) (getConnections ignoring_case ex_status)
   \<and> ''B'' < ''a''
   \<and> getConnections ignoring_case ex_collate = [1, 0]
   \<and> rank_key ex_collate 1 = rank_key ex_collate 0
   \<and> ranks_before ignoring_case ex_collate 1 0
   \<and> compareConnections ignoring_case ex_collate 1 0 \<le> 0
   \<and> sorted_wrt (ranks_before ignoring_case ex_collate) (getConnections ignoring_case ex_collate)"
proof -
  have le: "(ignoring_case x y \<le> 0) = (map lower x \<le> map lower y)" for x y
    by (auto simp: ignoring_case_def)
  have cc: "consistent_collation ignoring_case"
    unfolding consistent_collation_def le by (meson linear order.trans)
  have s: "getConnections ignoring_case ex_status = [1, 0]" by code_simp
  have b: "''B'' < ''a''" by code_simp
  have c: "getConnections ignoring_case ex_collate = [1, 0]" by code_simp
  have k: "rank_key ex_collate 1 = rank_key ex_collate 0" by code_simp
  have r: "ranks_before ignoring_case ex_collate 1 0" by code_simp
  from C3_getConnections_order[OF cc, of ex_status 1 0]
    C3_getConnections_order[OF cc, of ex_collate 1 0] cc s b c k r
  show ?thesis by simp
qed

section \<open>Proofs: probing\<close>

lemma earliest_mem: "earliest p qs \<in> set (p # qs)"
  by (induction qs arbitrary: p) (auto split: if_splits)

lemma promise_any_Fulfilled:
  assumes "promise_any ps = Fulfilled t x"
  shows "Fulfilled t x \<in> set ps"
proof (cases "filter is_fulfilled ps")
  case Nil
  with assms show ?thesis by (simp add: promise_any_def)
next
  case (Cons f fs)
  with assms have "Fulfilled t x \<in> set (f # fs)"
    using earliest_mem[of f fs] by (simp add: promise_any_def)
  then have "Fulfilled t x \<in> set (filter is_fulfilled ps)" using Cons by simp
  then show ?thesis by simp
qed

lemma promise_any_Rejected:
  assumes "promise_any ps = Rejected t e"
  shows "e = AggregateError \<and> filter is_fulfilled ps = []"
proof (cases "filter is_fulfilled ps")
  case Nil
  with assms show ?thesis by (auto simp add: promise_any_def)
next
  case (Cons f fs)
  have "earliest f fs \<in> set (filter is_fulfilled ps)"
    using earliest_mem[of f fs] Cons by simp
  then have "is_fulfilled (earliest f fs)" by simp
  with assms Cons show ?thesis by (simp add: promise_any_def)
qed

lemma check_promise_Fulfilled:
  assumes "check_promise env m v = Fulfilled t c"
  shows "v = ConnV c \<and> healthy (env (timeoutInMs m) c)"
  using assms by (auto simp: check_promise_def healthy_def split: jsval.splits if_splits)

lemma check_promise_unhealthy:
  assumes "\<not> healthy (env (timeoutInMs m) c)"
  shows "\<not> is_fulfilled (check_promise env m (ConnV c))"
  using assms by (auto simp: check_promise_def healthy_def)

lemma check_promise_not_conn:
  assumes "\<And>c. v \<noteq> ConnV c"
  shows "\<not> is_fulfilled (check_promise env m v)"
  using assms by (cases v) (auto simp: check_promise_def)

lemma apply_probe_frame [simp]:
  "timeoutInMs (apply_probe env m c) = timeoutInMs m"
  "connections (apply_probe env m c) = connections m"
  "currentConnection (apply_probe env m c) = currentConnection m"
  "listeners (apply_probe env m c) = listeners m"
  "autoSwitch (apply_probe env m c) = autoSwitch m"
  "length (heap (apply_probe env m c)) = length (heap m)"
  by (simp_all add: apply_probe_def)

lemma apply_probes_frame [simp]:
  "timeoutInMs (apply_probes env m cs) = timeoutInMs m"
  "connections (apply_probes env m cs) = connections m"
  "currentConnection (apply_probes env m cs) = currentConnection m"
  "listeners (apply_probes env m cs) = listeners m"
  "autoSwitch (apply_probes env m cs) = autoSwitch m"
  "length (heap (apply_probes env m cs)) = length (heap m)"
  by (induction cs arbitrary: m) (simp_all add: apply_probes_def)

lemma try_tier_frame:
  "timeoutInMs (snd (try_tier env m ex tier)) = timeoutInMs m"
  "connections (snd (try_tier env m ex tier)) = connections m"
  "currentConnection (snd (try_tier env m ex tier)) = currentConnection m"
  by (auto simp: try_tier_def Let_def split: jsval.splits promise.splits)

lemma try_tier_Inr:
  assumes "try_tier env m ex tier = (Inr c, m1)"
  shows "\<exists>vs. tier = ArrV vs \<and> ConnV c \<in> set vs \<and> healthy (env (timeoutInMs m) c)
          \<and> (case ex of None \<Rightarrow> True | Some xs \<Rightarrow> ConnV c \<notin> set xs)"
proof (cases tier)
  case (ArrV vs)
  let ?cands = "filter (\<lambda>connection. \<not> (case ex of None \<Rightarrow> False | Some xs \<Rightarrow> arrayContains xs connection)) vs"
  from assms ArrV obtain t where "promise_any (map (check_promise env m) ?cands) = Fulfilled t c"
    by (auto simp: try_tier_def Let_def split: promise.splits)
  then have "Fulfilled t c \<in> set (map (check_promise env m) ?cands)"
    by (rule promise_any_Fulfilled)
  then obtain v where v: "v \<in> set ?cands" "check_promise env m v = Fulfilled t c" by auto
  from v(2) have "v = ConnV c" "healthy (env (timeoutInMs m) c)"
    using check_promise_Fulfilled by blast+
  with v(1) ArrV show ?thesis
    by (auto simp: arrayContains_def split: option.splits)
qed (use assms in \<open>auto simp: try_tier_def\<close>)

lemma try_tier_Inl:
  assumes "try_tier env m ex (ArrV vs) = (Inl e, m1)"
  shows "e = AggregateError"
  using assms promise_any_Rejected
  by (auto simp: try_tier_def Let_def split: promise.splits)

lemma status_only_refl [simp]: "status_only m m"
  by (simp add: status_only_def)

lemma status_only_trans: "status_only a b \<Longrightarrow> status_only b c \<Longrightarrow> status_only a c"
  by (simp add: status_only_def)

lemma status_only_apply_probe: "status_only m (apply_probe env m c)"
proof (cases "c < length (heap m)")
  case True
  then show ?thesis by (simp add: status_only_def apply_probe_def nth_list_update)
next
  case False
  then show ?thesis by (simp add: status_only_def apply_probe_def list_update_beyond)
qed

lemma status_only_apply_probes: "status_only m (apply_probes env m cs)"
proof (induction cs arbitrary: m)
  case Nil
  then show ?case by (simp add: apply_probes_def)
next
  case (Cons c cs)
  have "status_only (apply_probe env m c) (apply_probes env (apply_probe env m c) cs)"
    by (rule Cons.IH)
  then show ?case
    using status_only_trans[OF status_only_apply_probe[of m env c]]
    by (simp add: apply_probes_def)
qed

lemma status_only_try_tier: "status_only m (snd (try_tier env m ex tier))"
  by (auto simp: try_tier_def Let_def status_only_apply_probes split: jsval.splits promise.splits)

lemma status_only_probe_tiers: "status_only m (snd (probe_tiers env m ex tiers))"
proof (induction tiers arbitrary: m)
  case Nil
  then show ?case by simp
next
  case (Cons tier tiers)
  obtain x m1 where t: "try_tier env m ex tier = (x, m1)" by (cases "try_tier env m ex tier")
  then have s: "status_only m m1" using status_only_try_tier[of m env ex tier] by simp
  show ?case
  proof (cases x)
    case (Inl e)
    with t s Cons.IH[of m1] show ?thesis
      by (auto intro: status_only_trans)
  next
    case (Inr c)
    with t s show ?thesis by simp
  qed
qed

lemma status_only_getBest: "status_only m (snd (getBestAvailableConnection env m ex))"
  by (simp add: getBestAvailableConnection_def status_only_probe_tiers)

lemma status_only_getUri: "status_only m m' \<Longrightarrow> getUri m' x = getUri m x"
  by (simp add: status_only_def getUri_def)

lemma probe_tiers_result:
  assumes "\<And>tier. tier \<in> set tiers \<Longrightarrow> tier_within S tier"
  shows "\<exists>r. fst (probe_tiers env m ex tiers) = Inr r
          \<and> (\<forall>c. r = Some c \<longrightarrow> c \<in> S \<and> healthy (env (timeoutInMs m) c)
                \<and> (case ex of None \<Rightarrow> True | Some xs \<Rightarrow> ConnV c \<notin> set xs))"
  using assms
proof (induction tiers arbitrary: m)
  case Nil
  then show ?case by simp
next
  case (Cons tier tiers)
  from Cons.prems[of tier] obtain vs where vs: "tier = ArrV vs" "\<And>c. ConnV c \<in> set vs \<Longrightarrow> c \<in> S"
    by (auto simp: tier_within_def split: jsval.splits)
  obtain x m1 where t: "try_tier env m ex tier = (x, m1)" by (cases "try_tier env m ex tier")
  show ?case
  proof (cases x)
    case (Inl e)
    with t vs(1) have e: "e = AggregateError" using try_tier_Inl by blast
    have tm: "timeoutInMs m1 = timeoutInMs m"
      using try_tier_frame(1)[of env m ex tier] t by simp
    from Cons.IH[of m1] Cons.prems
    obtain r where "fst (probe_tiers env m1 ex tiers) = Inr r"
      "\<forall>c. r = Some c \<longrightarrow> c \<in> S \<and> healthy (env (timeoutInMs m1) c)
                \<and> (case ex of None \<Rightarrow> True | Some xs \<Rightarrow> ConnV c \<notin> set xs)"
      by auto
    with t Inl e tm show ?thesis by simp
  next
    case (Inr c)
    with t try_tier_Inr[of env m ex tier c m1] vs
    have "c \<in> S \<and> healthy (env (timeoutInMs m) c) \<and> (case ex of None \<Rightarrow> True | Some xs \<Rightarrow> ConnV c \<notin> set xs)"
      by auto
    with t Inr show ?thesis by simp
  qed
qed

lemma map_push_refs:
  "set (concat (map snd (map_push mp p c))) = insert c (set (concat (map snd mp)))"
  by (induction mp p c rule: map_push.induct) auto

lemma foldl_map_push_refs:
  "set (concat (map snd (foldl (\<lambda>mp c. map_push mp (f c) c) mp0 cs)))
   = set (concat (map snd mp0)) \<union> set cs"
  by (induction cs arbitrary: mp0) (simp_all add: map_push_refs del: set_concat)

lemma connectionPriorities_refs:
  "set (concat (map snd (connectionPriorities m))) = set (connections m)"
  using foldl_map_push_refs[of "getPriority m" "[]" "connections m"]
  by (simp add: connectionPriorities_def)

lemma tiers_within:
  assumes "tier \<in> set (getConnectionsInAscendingPriority m)"
  shows "tier_within (set (connections m)) tier"
proof -
  let ?l = "map (\<lambda>e. ArrV (map ConnV (snd e))) (ascendingPriorities m)"
  have a: "tier_within (set (connections m)) t" if "t \<in> set ?l" for t
  proof -
    from that obtain e where e: "e \<in> set (connectionPriorities m)" "t = ArrV (map ConnV (snd e))"
      by (auto simp: ascendingPriorities_def)
    then have "set (snd e) \<subseteq> set (connections m)"
      using connectionPriorities_refs[of m] by auto
    with e(2) show ?thesis by (auto simp: tier_within_def)
  qed
  have b: "tier_within (set (connections m)) (ArrV (take 1 ?l))"
    by (auto simp: tier_within_def dest!: in_set_takeD)
  from assms have "tier \<in> set ?l \<or> tier = ArrV (take 1 ?l)"
    by (auto simp: getConnectionsInAscendingPriority_def Let_def split: if_splits dest: in_set_dropD)
  with a b show ?thesis by blast
qed

lemma getBest_result:
  "\<exists>r. fst (getBestAvailableConnection env m ex) = Inr r
          \<and> (\<forall>c. r = Some c \<longrightarrow> c \<in> set (connections m) \<and> healthy (env (timeoutInMs m) c)
                \<and> (case ex of None \<Rightarrow> True | Some xs \<Rightarrow> ConnV c \<notin> set xs))"
  unfolding getBestAvailableConnection_def
  by (rule probe_tiers_result) (rule tiers_within)


text \<open>How a check fails makes no difference to the result.\<close>

lemma check_promise_same:
  assumes "same_healthy env env' (timeoutInMs m)" and "timeoutInMs m' = timeoutInMs m"
  shows "filter is_fulfilled (map (check_promise env' m') vs)
         = filter is_fulfilled (map (check_promise env m) vs)"
proof (induction vs)
  case Nil
  then show ?case by simp
next
  case (Cons v vs)
  have "is_fulfilled (check_promise env' m' v) = is_fulfilled (check_promise env m v)
        \<and> (is_fulfilled (check_promise env m v) \<longrightarrow> check_promise env' m' v = check_promise env m v)"
  proof (cases v)
    case (ConnV c)
    from assms have h: "healthy (env' (timeoutInMs m) c) = healthy (env (timeoutInMs m) c)"
      and s: "healthy (env (timeoutInMs m) c) \<Longrightarrow> settles (env' (timeoutInMs m) c) = settles (env (timeoutInMs m) c)"
      by (simp_all add: same_healthy_def)
    show ?thesis
    proof (cases "healthy (env (timeoutInMs m) c)")
      case True
      with h s ConnV assms(2) show ?thesis
        by (simp add: check_promise_def healthy_def)
    next
      case False
      with h ConnV assms(2) show ?thesis
        by (auto simp add: check_promise_def healthy_def)
    qed
  qed (simp_all add: check_promise_def)
  with Cons.IH show ?case by auto
qed

lemma try_tier_same:
  assumes "same_healthy env env' (timeoutInMs m)" and "timeoutInMs m' = timeoutInMs m"
  shows "fst (try_tier env' m' ex tier) = fst (try_tier env m ex tier)"
proof (cases tier)
  case (ArrV vs)
  let ?cands = "filter (\<lambda>connection. \<not> (case ex of None \<Rightarrow> False | Some xs \<Rightarrow> arrayContains xs connection)) vs"
  have f: "filter is_fulfilled (map (check_promise env' m') ?cands)
         = filter is_fulfilled (map (check_promise env m) ?cands)"
    by (rule check_promise_same[OF assms])
  show ?thesis
  proof (cases "filter is_fulfilled (map (check_promise env m) ?cands)")
    case Nil
    with f ArrV show ?thesis
      by (simp add: try_tier_def Let_def promise_any_def)
  next
    case (Cons p ps)
    with f ArrV show ?thesis
      by (simp add: try_tier_def Let_def promise_any_def split: promise.splits)
  qed
qed (simp_all add: try_tier_def)

lemma probe_tiers_same:
  assumes "same_healthy env env' (timeoutInMs m)" and "timeoutInMs m' = timeoutInMs m"
  shows "fst (probe_tiers env' m' ex tiers) = fst (probe_tiers env m ex tiers)"
  using assms
proof (induction tiers arbitrary: m m')
  case Nil
  then show ?case by simp
next
  case (Cons tier tiers)
  obtain x m1 where t: "try_tier env m ex tier = (x, m1)" by (cases "try_tier env m ex tier")
  obtain x' m1' where t': "try_tier env' m' ex tier = (x', m1')" by (cases "try_tier env' m' ex tier")
  from try_tier_same[OF Cons.prems, of ex tier] t t' have x: "x' = x" by simp
  have tm: "timeoutInMs m1 = timeoutInMs m" "timeoutInMs m1' = timeoutInMs m'"
    using try_tier_frame(1)[of env m ex tier] try_tier_frame(1)[of env' m' ex tier] t t' by simp_all
  show ?case
  proof (cases x)
    case (Inr c)
    with t t' x show ?thesis by simp
  next
    case (Inl e)
    have "fst (probe_tiers env' m1' ex tiers) = fst (probe_tiers env m1 ex tiers)"
      using Cons.prems tm by (intro Cons.IH) simp_all
    with t t' x Inl show ?thesis by simp
  qed
qed

lemma getBest_same:
  assumes "same_healthy env env' (timeoutInMs m)"
  shows "fst (getBestAvailableConnection env' m ex) = fst (getBestAvailableConnection env m ex)"
  unfolding getBestAvailableConnection_def by (rule probe_tiers_same[OF assms]) simp

text \<open>
  C2. With \<open>A\<close> (priority 1) unreachable and \<open>Z\<close> (priority 0) answering, the probing
  should fall through to the priority-0 tier and return \<open>Z\<close>. The last tier that
  \<^verbatim>\<open>_getConnectionsInAscendingPriority\<close> builds holds the array of \<open>Z\<close> and not \<open>Z\<close>, so no
  check is ever made on \<open>Z\<close> (its status stays unknown) and the result is \<^verbatim>\<open>undefined\<close>.
\<close>

theorem C2_priority_zero_tier_not_probed:
  "getConnectionsInAscendingPriority ex_tiers = [ArrV [ConnV 0], ArrV [ArrV [ConnV 1]]]
   \<and> healthy (only_Z_answers (timeoutInMs ex_tiers) 1)
   \<and> fst (getBestAvailableConnection only_Z_answers ex_tiers (Some [])) = Inr None
   \<and> isOnline (heap (snd (getBestAvailableConnection only_Z_answers ex_tiers (Some []))) ! 1)
       = None"
  by code_simp

text \<open>
  C6. \<^verbatim>\<open>getBestAvailableConnection\<close> never throws, whatever the checks do (reject, time
  out, report an unhealthy connection): its result is a connection or \<^verbatim>\<open>undefined\<close>. A
  connection it returns is registered, passed its check and is not excluded. When no
  registered connection passes its check, and so when none is registered, the result is
  \<^verbatim>\<open>undefined\<close>. A check that fails counts as an unhealthy connection however it fails:
  the result is the same in two networks in which the same checks pass at the same time.
\<close>

theorem C6_getBestAvailableConnection_never_throws:
  "(\<exists>r. fst (getBestAvailableConnection env m ex) = Inr r)
   \<and> (fst (getBestAvailableConnection env m ex) = Inr (Some c) \<longrightarrow>
        c \<in> set (connections m) \<and> healthy (env (timeoutInMs m) c)
        \<and> (case ex of None \<Rightarrow> True | Some xs \<Rightarrow> ConnV c \<notin> set xs))
   \<and> (list_all (\<lambda>c. \<not> healthy (env (timeoutInMs m) c)) (connections m) \<longrightarrow>
        fst (getBestAvailableConnection env m ex) = Inr None)
   \<and> (connections m = [] \<longrightarrow> fst (getBestAvailableConnection env m ex) = Inr None)
   \<and> (same_healthy env env' (timeoutInMs m) \<longrightarrow>
        fst (getBestAvailableConnection env' m ex) = fst (getBestAvailableConnection env m ex))"
proof -
  obtain r where r: "fst (getBestAvailableConnection env m ex) = Inr r"
    and w: "\<And>c. r = Some c \<Longrightarrow> c \<in> set (connections m) \<and> healthy (env (timeoutInMs m) c)
                \<and> (case ex of None \<Rightarrow> True | Some xs \<Rightarrow> ConnV c \<notin> set xs)"
    using getBest_result[of env m ex] by blast
  have none: "r = None" if "list_all (\<lambda>c. \<not> healthy (env (timeoutInMs m) c)) (connections m)"
  proof (cases r)
    case (Some c)
    with w[of c] that show ?thesis by (auto simp: list_all_iff)
  qed simp
  have "r = None" if "connections m = []"
    using none that by simp
  with r w none getBest_same[of env env' m ex] show ?thesis by auto
qed

text \<open>
  C6 at examples: a registry none of whose connections answers, an empty registry, a
  registry in which the connection of the second tier answers, and the same registry
  with the connection of the first tier failing in another way.
\<close>

theorem C6_witness:
  "list_all (\<lambda>c. \<not> healthy (nothing_answers (timeoutInMs ex_rank) c)) (connections ex_rank)
   \<and> fst (getBestAvailableConnection nothing_answers ex_rank None) = Inr None
   \<and> connections (new_manager []) = []
   \<and> fst (getBestAvailableConnection nothing_answers (new_manager []) None) = Inr None
   \<and> fst (getBestAvailableConnection only_Z_answers ex_cycle None) = Inr (Some 1)
   \<and> 1 \<in> set (connections ex_cycle) \<and> healthy (only_Z_answers (timeoutInMs ex_cycle) 1)
   \<and> same_healthy only_Z_answers Z_answers_A_fails (timeoutInMs ex_cycle)
   \<and> fst (getBestAvailableConnection Z_answers_A_fails ex_cycle None) = Inr (Some 1)"
proof -
  have a: "list_all (\<lambda>c. \<not> healthy (nothing_answers (timeoutInMs ex_rank) c)) (connections ex_rank)"
    by (simp add: healthy_def nothing_answers_def ex_rank_def new_manager_def)
  have b: "connections (new_manager []) = []"
    by (simp add: new_manager_def)
  have c: "fst (getBestAvailableConnection only_Z_answers ex_cycle None) = Inr (Some 1)"
    by code_simp
  have s: "same_healthy only_Z_answers Z_answers_A_fails (timeoutInMs ex_cycle)"
    by (simp add: same_healthy_def only_Z_answers_def Z_answers_A_fails_def healthy_def)
  from C6_getBestAvailableConnection_never_throws[of only_Z_answers ex_cycle None 1
      Z_answers_A_fails] c s
  have d: "1 \<in> set (connections ex_cycle) \<and> healthy (only_Z_answers (timeoutInMs ex_cycle) 1)"
    and e: "fst (getBestAvailableConnection Z_answers_A_fails ex_cycle None) = Inr (Some 1)"
    by simp_all
  show ?thesis
    using C6_getBestAvailableConnection_never_throws[of nothing_answers ex_rank None]
      C6_getBestAvailableConnection_never_throws[of nothing_answers "new_manager []" None]
      a b c d e s
    by simp
qed

section \<open>Proofs: the check cycle\<close>









lemma status_only_uri_unique:
  assumes "status_only m m'"
  shows "uri_unique m' = uri_unique m"
proof -
  have "getUri m' = getUri m" using assms by (auto simp: status_only_def getUri_def)
  moreover have "connections m' = connections m" using assms by (simp add: status_only_def)
  ultimately show ?thesis by (simp add: uri_unique_def)
qed







section \<open>Proofs: URI uniqueness\<close>

lemma status_only_wf:
  assumes "status_only m m'"
  shows "wf_manager m' = wf_manager m"
  using assms by (simp add: wf_manager_def status_only_def split: option.splits)

lemma getUri_frame [simp]:
  "getUri (m\<lparr>currentConnection := x\<rparr>) = getUri m"
  "getUri (m\<lparr>connections := cs\<rparr>) = getUri m"
  "getUri (m\<lparr>listeners := ls\<rparr>) = getUri m"
  "getUri (m\<lparr>autoSwitch := b\<rparr>) = getUri m"
  "getUri (m\<lparr>timeoutInMs := t\<rparr>) = getUri m"
  by (simp_all add: getUri_def fun_eq_iff)

lemma getUri_setCredentials [simp]: "getUri (setCredentials m p u pw) = getUri m"
proof
  fix x
  show "getUri (setCredentials m p u pw) x = getUri m x"
    by (cases "p < length (heap m)")
       (simp_all add: getUri_def setCredentials_def nth_list_update list_update_beyond)
qed

lemma addConnection_inv:
  assumes "wf_manager m" and "uri_unique m" and "c < length (heap m)"
    and "addConnection m c = Inr m1"
  shows "wf_manager m1 \<and> uri_unique m1"
proof -
  from assms(4) have nex: "\<not> list_ex (\<lambda>a. getUri m a = getUri m c) (connections m)"
    and m1: "m1 = m\<lparr>connections := connections m @ [c]\<rparr>"
    by (auto simp: addConnection_def split: if_splits)
  have g: "getUri m1 = getUri m" unfolding m1 by simp
  from nex have "getUri m c \<notin> set (map (getUri m) (connections m))"
    by (auto simp: list_ex_iff)
  with assms(2) have "uri_unique m1"
    unfolding uri_unique_def g by (simp add: m1)
  moreover have "wf_manager m1"
    using assms(1,3) by (simp add: m1 wf_manager_def split: option.splits)
  ultimately show ?thesis by simp
qed

lemma setConnection_object_inv:
  assumes "wf_manager m" and "uri_unique m" and "c < length (heap m)"
  shows "wf_manager (after (setConnection_object m c)) \<and> uri_unique (after (setConnection_object m c))"
proof (cases "currentConnection m = Some c")
  case True
  with assms show ?thesis by (simp add: setConnection_object_def returns_def)
next
  case nc: False
  show ?thesis
  proof (cases "getConnectionByUri m (getUri m c)")
    case None
    show ?thesis
    proof (cases "addConnection m c")
      case (Inl e)
      with None nc assms show ?thesis by (simp add: setConnection_object_def throws_def)
    next
      case (Inr m1)
      from addConnection_inv[OF assms Inr] have i: "wf_manager m1" "uri_unique m1" by simp_all
      from Inr have c1: "c \<in> set (connections m1)" "heap m1 = heap m"
        by (auto simp: addConnection_def split: if_splits)
      let ?m2 = "m1\<lparr>currentConnection := Some c\<rparr>"
      have "wf_manager ?m2" using i(1) assms(3) c1(2) by (simp add: wf_manager_def)
      moreover have "uri_unique ?m2" using i(2) by (simp add: uri_unique_def)
      ultimately show ?thesis using None nc Inr
        by (simp add: setConnection_object_def returns_def onConnectionChanged_def)
    qed
  next
    case (Some prev)
    then have "prev \<in> set (connections m)"
      unfolding getConnectionByUri_def by (auto dest: find_Some_D)
    with assms(1) have lt: "prev < length (heap m)" by (simp add: wf_manager_def list_all_iff)
    let ?m2 = "(setCredentials m prev (getUsername m c) (getPassword m c))\<lparr>currentConnection := Some prev\<rparr>"
    have len: "length (heap ?m2) = length (heap m)" "connections ?m2 = connections m"
      by (simp_all add: setCredentials_def)
    have "wf_manager ?m2" using assms(1) lt by (simp add: wf_manager_def setCredentials_def)
    moreover have "uri_unique ?m2" using assms(2) len(2) by (simp add: uri_unique_def)
    ultimately show ?thesis using Some nc assms
      by (simp add: setConnection_object_def returns_def onConnectionChanged_def)
  qed
qed

lemma setConnection_inv:
  assumes "wf_manager m" and "uri_unique m" and "operation_ok m (SetConnection x)"
  shows "wf_manager (after (setConnection m x)) \<and> uri_unique (after (setConnection m x))"
proof (cases x)
  case (Uri u)
  show ?thesis
  proof (cases "getConnectionByUri m u")
    case (Some c)
    then have "c \<in> set (connections m)"
      unfolding getConnectionByUri_def by (auto dest: find_Some_D)
    with assms(1) have "c < length (heap m)" by (simp add: wf_manager_def list_all_iff)
    from setConnection_object_inv[OF assms(1,2) this] Uri Some show ?thesis
      by (simp add: setConnection_def)
  next
    case None
    let ?new = "\<lparr>uri = u, username = None, password = None, priority = 0, isOnline = None,
               isAuthenticated = None\<rparr>"
    let ?m1 = "m\<lparr>heap := heap m @ [?new]\<rparr>"
    have wfc: "list_all (\<lambda>c. c < length (heap m)) (connections m)"
      using assms(1) by (simp add: wf_manager_def)
    have w1: "wf_manager ?m1"
      using assms(1) by (auto simp: wf_manager_def list_all_iff split: option.splits)
    have eq: "map (getUri ?m1) (connections ?m1) = map (getUri m) (connections m)"
      using wfc by (intro map_cong) (simp_all add: getUri_def list_all_iff nth_append)
    have u1: "uri_unique ?m1"
      unfolding uri_unique_def eq using assms(2)[unfolded uri_unique_def] .
    have "length (heap m) < length (heap ?m1)" by simp
    from setConnection_object_inv[OF w1 u1 this] Uri None show ?thesis
      by (simp add: setConnection_def new_MoneroRpcConnection_def)
  qed
next
  case (Conn c)
  with assms(3) have "c < length (heap m)" by simp
  from setConnection_object_inv[OF assms(1,2) this] Conn show ?thesis
    by (simp add: setConnection_def)
next
  case Undefined
  with assms show ?thesis
    by (auto simp: setConnection_def returns_def onConnectionChanged_def wf_manager_def
        uri_unique_def)
next
  case Falsy
  with assms show ?thesis
    by (auto simp: setConnection_def returns_def onConnectionChanged_def wf_manager_def
        uri_unique_def)
next
  case Other
  with assms show ?thesis by (simp add: setConnection_def throws_def)
qed

lemma auto_switch_inv:
  assumes "wf_manager (after r)" and "uri_unique (after r)"
  shows "wf_manager (after (auto_switch env connection r))
       \<and> uri_unique (after (auto_switch env connection r))"
proof -
  let ?ex = "Some [case connection of None \<Rightarrow> UndefV | Some c \<Rightarrow> ConnV c]"
  let ?g = "getBestAvailableConnection env (after r) ?ex"
  obtain x m1 where g: "?g = (x, m1)" by (cases ?g)
  have so: "status_only (after r) m1" using status_only_getBest[of "after r" env ?ex] g by simp
  then have i1: "wf_manager m1" "uri_unique m1"
    using assms status_only_wf status_only_uri_unique by blast+
  from getBest_result[of env "after r" ?ex] g
  obtain res where res: "x = Inr res" "\<And>b. res = Some b \<Longrightarrow> b \<in> set (connections (after r))"
    by auto
  show ?thesis
  proof (cases res)
    case None
    with g res(1) i1 assms show ?thesis by (simp add: auto_switch_def)
  next
    case (Some b)
    with res(2) assms(1) have "b < length (heap (after r))" by (simp add: wf_manager_def list_all_iff)
    then have "operation_ok m1 (SetConnection (Conn b))" using so by (simp add: status_only_def)
    from setConnection_inv[OF i1 this] g res(1) Some assms show ?thesis
      by (simp add: auto_switch_def)
  qed
qed

lemma checkConnection_inv:
  assumes "wf_manager m" and "uri_unique m"
  shows "wf_manager (after (checkConnection env aw m)) \<and> uri_unique (after (checkConnection env aw m))"
proof (cases "currentConnection m")
  case None
  have "wf_manager (after (returns m))" "uri_unique (after (returns m))"
    using assms by (simp_all add: returns_def)
  from auto_switch_inv[OF this] None show ?thesis by (simp add: checkConnection_def)
next
  case (Some c)
  let ?m1 = "apply_probe env m c"
  have so: "status_only m ?m1" by (rule status_only_apply_probe)
  then have i1: "wf_manager ?m1" "uri_unique ?m1"
    using assms status_only_wf status_only_uri_unique by blast+
  have a: "wf_manager (after (returns ?m1))" "uri_unique (after (returns ?m1))"
    using i1 by (simp_all add: returns_def)
  have b: "wf_manager (after (onConnectionChanged (Some c) (returns ?m1)))"
    "uri_unique (after (onConnectionChanged (Some c) (returns ?m1)))"
    using i1 by (simp_all add: returns_def onConnectionChanged_def)
  from auto_switch_inv[OF a, of env "Some c"] auto_switch_inv[OF b, of env "Some c"] i1 Some
  show ?thesis
    by (auto simp add: checkConnection_def rpc_checkConnection_def throws_def returns_def
        onConnectionChanged_def split: option.splits)
qed

lemma step_inv:
  assumes "wf_manager m" and "uri_unique m" and "operation_ok m op"
  shows "wf_manager (step lc env aw m op) \<and> uri_unique (step lc env aw m op)"
proof (cases op)
  case (AddListener l)
  with assms show ?thesis by (simp add: addListener_def wf_manager_def uri_unique_def split: option.splits)
next
  case (RemoveListener l)
  with assms show ?thesis
    by (auto simp add: removeListener_def wf_manager_def uri_unique_def split: option.splits)
next
  case (AddConnection c)
  show ?thesis
  proof (cases "addConnection m c")
    case (Inl e)
    with AddConnection assms show ?thesis by simp
  next
    case (Inr m1)
    from AddConnection assms(3) have "c < length (heap m)" by simp
    from addConnection_inv[OF assms(1,2) this Inr] AddConnection Inr show ?thesis by simp
  qed
next
  case (RemoveConnection u)
  with assms show ?thesis
    by (cases "getConnectionByUri m u") (simp_all add: removeConnection_registered removeConnection_unknown)
next
  case (SetConnection x)
  with assms setConnection_inv[of m x] show ?thesis by simp
next
  case (GetBestAvailableConnection ex)
  with assms status_only_getBest[of m env ex] status_only_wf status_only_uri_unique
  show ?thesis by auto
next
  case CheckConnection
  with assms checkConnection_inv[of m env aw] show ?thesis by simp
next
  case CheckConnections
  with assms status_only_apply_probes[of m env "getConnections lc m"] status_only_wf status_only_uri_unique
  show ?thesis by (auto simp: checkConnections_def returns_def)
next
  case (SetAutoSwitch b)
  with assms show ?thesis by (simp add: setAutoSwitch_def wf_manager_def uri_unique_def split: option.splits)
next
  case (SetTimeout t)
  with assms show ?thesis by (simp add: setTimeout_def wf_manager_def uri_unique_def split: option.splits)
next
  case Disconnect
  with assms setConnection_inv[of m Undefined] show ?thesis by (simp add: disconnect_def)
qed

lemma setConnection_registers:
  "connections (after (setConnection m (Conn c)))
   = (if getConnectionByUri m (getUri m c) = None \<and> currentConnection m \<noteq> Some c
      then connections m @ [c] else connections m)"
proof (cases "getConnectionByUri m (getUri m c)")
  case None
  then have "\<not> list_ex (\<lambda>a. getUri m a = getUri m c) (connections m)"
    unfolding getConnectionByUri_def by (rule find_None_list_ex)
  with None show ?thesis
    by (simp add: setConnection_def setConnection_object_def addConnection_def returns_def
        onConnectionChanged_def)
next
  case (Some prev)
  then show ?thesis
    by (simp add: setConnection_def setConnection_object_def returns_def
        onConnectionChanged_def setCredentials_def)
qed


lemma run_inv:
  assumes "wf_manager m" and "uri_unique m" and "operations_ok lc env aw m ops"
  shows "wf_manager (run lc env aw m ops) \<and> uri_unique (run lc env aw m ops)"
  using assms
proof (induction ops arbitrary: m)
  case Nil
  then show ?case by simp
next
  case (Cons op ops)
  from Cons.prems have ok: "operation_ok m op" "operations_ok lc env aw (step lc env aw m op) ops"
    by simp_all
  from step_inv[OF Cons.prems(1,2) ok(1), of lc env aw]
  have "wf_manager (step lc env aw m op)" "uri_unique (step lc env aw m op)" by simp_all
  from Cons.IH[OF this ok(2)] show ?case by simp
qed

text \<open>
  C8. No two registered connections share a URI: a new manager has the property, every
  operation preserves it (together with the validity of the references), and so does
  every sequence of operations. \<^verbatim>\<open>addConnection\<close> with a registered URI throws and leaves
  the manager as it was. \<^verbatim>\<open>setConnection\<close> with a connection object registers it only
  when no registered connection has its URI.
\<close>

theorem C8_uri_uniqueness_invariant:
  "wf_manager (new_manager h) \<and> uri_unique (new_manager h)
   \<and> (wf_manager m \<and> uri_unique m \<and> operation_ok m op \<longrightarrow>
        wf_manager (step lc env aw m op) \<and> uri_unique (step lc env aw m op))
   \<and> (wf_manager m \<and> uri_unique m \<and> operations_ok lc env aw m ops \<longrightarrow>
        uri_unique (run lc env aw m ops))
   \<and> (list_ex (\<lambda>a. getUri m a = getUri m c) (connections m) \<longrightarrow>
        addConnection m c = Inl (MoneroError ''Connection URI already exists'')
        \<and> step lc env aw m (AddConnection c) = m)
   \<and> connections (after (setConnection m (Conn c)))
       = (if getConnectionByUri m (getUri m c) = None \<and> currentConnection m \<noteq> Some c
          then connections m @ [c] else connections m)"
proof -
  have "wf_manager (new_manager h) \<and> uri_unique (new_manager h)"
    by (simp add: wf_manager_def uri_unique_def new_manager_def)
  moreover have "list_ex (\<lambda>a. getUri m a = getUri m c) (connections m) \<longrightarrow>
        addConnection m c = Inl (MoneroError ''Connection URI already exists'')
        \<and> step lc env aw m (AddConnection c) = m"
    by (simp add: addConnection_def)
  ultimately show ?thesis
    using step_inv[of m op lc env aw] run_inv[of m lc env aw ops] setConnection_registers[of m c]
    by blast
qed

text \<open>
  C8 at \<open>ex_password\<close>: adding the object with the registered URI throws and changes
  nothing; selecting a new address and a sequence of three operations keep the URIs
  distinct.
\<close>

theorem C8_witness:
  "wf_manager ex_password \<and> uri_unique ex_password
   \<and> operation_ok ex_password (SetConnection (Uri ''b''))
   \<and> wf_manager (step ignoring_case nothing_answers (\<lambda>c. None) ex_password (SetConnection (Uri ''b'')))
   \<and> uri_unique (step ignoring_case nothing_answers (\<lambda>c. None) ex_password (SetConnection (Uri ''b'')))
   \<and> operations_ok ignoring_case nothing_answers (\<lambda>c. None) ex_password
        [AddConnection 1, SetConnection (Uri ''b''), CheckConnection]
   \<and> uri_unique (run ignoring_case nothing_answers (\<lambda>c. None) ex_password
        [AddConnection 1, SetConnection (Uri ''b''), CheckConnection])
   \<and> list_ex (\<lambda>a. getUri ex_password a = getUri ex_password 1) (connections ex_password)
   \<and> addConnection ex_password 1 = Inl (MoneroError ''Connection URI already exists'')
   \<and> step ignoring_case nothing_answers (\<lambda>c. None) ex_password (AddConnection 1) = ex_password"
proof -
  have wf: "wf_manager ex_password" by code_simp
  have uu: "uri_unique ex_password" by code_simp
  have ok1: "operation_ok ex_password (SetConnection (Uri ''b''))" by simp
  have ok: "operations_ok ignoring_case nothing_answers (\<lambda>c. None) ex_password
        [AddConnection 1, SetConnection (Uri ''b''), CheckConnection]" by code_simp
  have dup: "list_ex (\<lambda>a. getUri ex_password a = getUri ex_password 1) (connections ex_password)"
    by code_simp
  from C8_uri_uniqueness_invariant[where h = "[]" and m = ex_password
      and op = "SetConnection (Uri ''b'')" and lc = ignoring_case and env = nothing_answers
      and aw = "\<lambda>c. None" and ops = "[AddConnection 1, SetConnection (Uri ''b''), CheckConnection]"
      and c = 1]
    wf uu ok1 ok dup
  show ?thesis by blast
qed

section \<open>Proofs: notifying the listeners\<close>

lemma fold_max_ge: "(a::nat) \<le> fold max xs a"
  by (induction xs arbitrary: a) (auto intro: order_trans[OF max.cobounded2])

lemma fold_max_mem: "x \<in> set xs \<Longrightarrow> (x::nat) \<le> fold max xs a"
proof (induction xs arbitrary: a)
  case Nil
  then show ?case by simp
next
  case (Cons y ys)
  show ?case
  proof (cases "x = y")
    case True
    have "max y a \<le> fold max ys (max y a)" by (rule fold_max_ge)
    with True show ?thesis by simp
  next
    case False
    with Cons show ?thesis by simp
  qed
qed

lemma earliest_least: "q \<in> set (p # qs) \<Longrightarrow> settle_time (earliest p qs) \<le> settle_time q"
proof (induction qs arbitrary: p q)
  case Nil
  then show ?case by simp
next
  case (Cons r rs)
  let ?p' = "if settle_time r < settle_time p then r else p"
  have le: "settle_time (earliest ?p' rs) \<le> settle_time ?p'"
    using Cons.IH[where p = ?p' and q = ?p'] by simp
  from Cons.prems consider "q = p" | "q = r" | "q \<in> set rs" by auto
  then show ?case
  proof cases
    case 1
    with le show ?thesis by (auto split: if_splits)
  next
    case 2
    with le show ?thesis by (auto split: if_splits)
  next
    case 3
    then show ?thesis using Cons.IH[where p = ?p' and q = q] by simp
  qed
qed

lemma promise_all_Fulfilled:
  assumes "promise_all ps = Fulfilled t x" and "p \<in> set ps"
  shows "is_fulfilled p \<and> settle_time p \<le> t"
proof (cases "filter (\<lambda>p. \<not> is_fulfilled p) ps")
  case Nil
  then have "is_fulfilled p" using assms(2) by (auto simp: filter_empty_conv)
  moreover have "t = fold max (map settle_time ps) 0" using assms(1) Nil by (simp add: promise_all_def)
  moreover have "settle_time p \<le> fold max (map settle_time ps) 0"
    using assms(2) by (intro fold_max_mem) simp
  ultimately show ?thesis by simp
next
  case (Cons r rs)
  have "earliest r rs \<in> set (filter (\<lambda>p. \<not> is_fulfilled p) ps)"
    using earliest_mem[of r rs] Cons by simp
  then have "\<not> is_fulfilled (earliest r rs)" by simp
  with assms(1) Cons show ?thesis by (simp add: promise_all_def)
qed

lemma promise_all_Rejected:
  assumes "promise_all ps = Rejected t e"
  shows "Rejected t e \<in> set ps \<and> (\<forall>p \<in> set ps. \<not> is_fulfilled p \<longrightarrow> t \<le> settle_time p)"
proof (cases "filter (\<lambda>p. \<not> is_fulfilled p) ps")
  case Nil
  with assms show ?thesis by (simp add: promise_all_def)
next
  case (Cons r rs)
  with assms have e: "earliest r rs = Rejected t e" by (simp add: promise_all_def)
  have "earliest r rs \<in> set (filter (\<lambda>p. \<not> is_fulfilled p) ps)"
    using earliest_mem[of r rs] Cons by simp
  with e have a: "Rejected t e \<in> set ps" by simp
  have "t \<le> settle_time p" if "p \<in> set ps" "\<not> is_fulfilled p" for p
  proof -
    from that have "p \<in> set (r # rs)" using Cons[symmetric] by simp
    from earliest_least[OF this] e show ?thesis by simp
  qed
  with a show ?thesis by blast
qed

lemma dispatch_loop_untouched:
  assumes "\<And>l. l \<in> set (listeners m) \<Longrightarrow> actions (beh l) = []"
    and "i \<le> length (listeners m)" and "length (listeners m) - i < fuel"
  shows "dispatch_loop fuel beh c m i called ps =
     Some \<lparr>invoked = called @ map (\<lambda>l. (l, c)) (fst (until_throw beh (drop i (listeners m)))),
           final = m,
           settled = (case snd (until_throw beh (drop i (listeners m))) of
                        Some e \<Rightarrow> Rejected 0 e
                      | None \<Rightarrow> promise_all (ps @ map (\<lambda>l. returned (beh l)) (drop i (listeners m))))\<rparr>"
  using assms(2,3)
proof (induction fuel arbitrary: i called ps)
  case 0
  then show ?case by simp
next
  case (Suc k)
  show ?case
  proof (cases "i < length (listeners m)")
    case False
    with Suc.prems show ?thesis by simp
  next
    case True
    let ?l = "listeners m ! i"
    have d: "drop i (listeners m) = ?l # drop (Suc i) (listeners m)"
      using True by (simp add: Cons_nth_drop_Suc)
    have na: "actions (beh ?l) = []" using assms(1) True by simp
    show ?thesis
    proof (cases "outcome (beh ?l)")
      case (Throws e)
      with True na d show ?thesis by simp
    next
      case (Returns p)
      have "dispatch_loop k beh c m (Suc i) (called @ [(?l, c)]) (ps @ [p]) =
        Some \<lparr>invoked = (called @ [(?l, c)]) @ map (\<lambda>l. (l, c)) (fst (until_throw beh (drop (Suc i) (listeners m)))),
           final = m,
           settled = (case snd (until_throw beh (drop (Suc i) (listeners m))) of
                        Some e \<Rightarrow> Rejected 0 e
                      | None \<Rightarrow> promise_all ((ps @ [p]) @ map (\<lambda>l. returned (beh l)) (drop (Suc i) (listeners m))))\<rparr>"
        using True Suc.prems by (intro Suc.IH) simp_all
      with True na d Returns show ?thesis by (simp add: returned_def split: option.splits)
    qed
  qed
qed

lemma dispatch_untouched:
  assumes "\<And>l. l \<in> set (listeners m) \<Longrightarrow> actions (beh l) = []"
  shows "dispatch (Suc (length (listeners m))) beh m c =
     Some \<lparr>invoked = map (\<lambda>l. (l, c)) (fst (until_throw beh (listeners m))),
           final = m,
           settled = (case snd (until_throw beh (listeners m)) of
                        Some e \<Rightarrow> Rejected 0 e
                      | None \<Rightarrow> promise_all (map (\<lambda>l. returned (beh l)) (listeners m)))\<rparr>"
  unfolding dispatch_def
  using dispatch_loop_untouched[where m = m and beh = beh and i = 0
      and fuel = "Suc (length (listeners m))" and c = c and called = "[]" and ps = "[]"] assms
  by (simp del: dispatch_loop.simps cong: option.case_cong)

lemma dispatch_loop_more_fuel:
  assumes "dispatch_loop k beh c m i called ps = Some d"
  shows "dispatch_loop (k + n) beh c m i called ps = Some d"
  using assms
proof (induction k arbitrary: m i called ps)
  case 0
  then show ?case by simp
next
  case (Suc k)
  show ?case
  proof (cases "i < length (listeners m)")
    case False
    with Suc.prems show ?thesis by simp
  next
    case True
    obtain e m1 where r: "run_actions m (actions (beh (listeners m ! i))) = (e, m1)"
      by (cases "run_actions m (actions (beh (listeners m ! i)))")
    show ?thesis
    proof (cases e)
      case (Some x)
      with True r Suc.prems show ?thesis by simp
    next
      case None
      show ?thesis
      proof (cases "outcome (beh (listeners m ! i))")
        case (Throws x)
        with True r None Suc.prems show ?thesis by simp
      next
        case (Returns p)
        with True r None Suc.prems
        have "dispatch_loop k beh c m1 (Suc i) (called @ [(listeners m ! i, c)]) (ps @ [p]) = Some d"
          by simp
        from Suc.IH[OF this] True r None Returns show ?thesis by simp
      qed
    qed
  qed
qed


lemma run_actions_adds:
  assumes "list_all (\<lambda>a. case a of Adds x \<Rightarrow> True | Removes x \<Rightarrow> False) as"
  shows "\<exists>added. run_actions m as = (None, m\<lparr>listeners := listeners m @ added\<rparr>)"
  using assms
proof (induction as arbitrary: m)
  case Nil
  have "m = m\<lparr>listeners := listeners m @ []\<rparr>" by simp
  then show ?case by (metis run_actions.simps(1))
next
  case (Cons a as)
  then obtain x where a: "a = Adds x" by (cases a) auto
  from Cons.prems have "list_all (\<lambda>a. case a of Adds x \<Rightarrow> True | Removes x \<Rightarrow> False) as" by simp
  from Cons.IH[OF this, of "addListener m x"]
  obtain added where "run_actions (addListener m x) as
      = (None, (addListener m x)\<lparr>listeners := listeners (addListener m x) @ added\<rparr>)" by blast
  then have "run_actions m (a # as) = (None, m\<lparr>listeners := listeners m @ (x # added)\<rparr>)"
    using a by (simp add: addListener_def)
  then show ?case by blast
qed

lemma dispatch_loop_adds_only:
  assumes "adds_only beh"
    and "dispatch_loop fuel beh c m i called ps = Some d"
    and "map fst called = take i (listeners m)" and "i \<le> length (listeners m)"
    and "list_all (\<lambda>x. \<exists>p. outcome (beh (fst x)) = Returns p) (invoked d)"
  shows "map fst (invoked d) = listeners (final d)
         \<and> (\<exists>added. listeners (final d) = listeners m @ added)"
  using assms(2-5)
proof (induction fuel arbitrary: m i called ps)
  case 0
  then show ?case by simp
next
  case (Suc k)
  show ?case
  proof (cases "i < length (listeners m)")
    case False
    with Suc.prems show ?thesis by auto
  next
    case True
    let ?l = "listeners m ! i"
    from assms(1) have "list_all (\<lambda>a. case a of Adds x \<Rightarrow> True | Removes x \<Rightarrow> False) (actions (beh ?l))"
      by (simp add: adds_only_def)
    from run_actions_adds[OF this, of m]
    obtain added where r: "run_actions m (actions (beh ?l)) = (None, m\<lparr>listeners := listeners m @ added\<rparr>)"
      by blast
    let ?m1 = "m\<lparr>listeners := listeners m @ added\<rparr>"
    show ?thesis
    proof (cases "outcome (beh ?l)")
      case (Throws e)
      with True r Suc.prems(1) have "d = \<lparr>invoked = called @ [(?l, c)], final = ?m1, settled = Rejected 0 e\<rparr>"
        by simp
      with Suc.prems(4) Throws show ?thesis by simp
    next
      case (Returns p)
      with True r Suc.prems(1)
      have dl: "dispatch_loop k beh c ?m1 (Suc i) (called @ [(?l, c)]) (ps @ [p]) = Some d"
        by simp
      have pre: "map fst (called @ [(?l, c)]) = take (Suc i) (listeners ?m1)"
        using True Suc.prems(2) by (simp add: take_Suc_conv_app_nth nth_append)
      have le: "Suc i \<le> length (listeners ?m1)" using True by simp
      from Suc.IH[OF dl pre le Suc.prems(4)]
      obtain added' where "map fst (invoked d) = listeners (final d)"
        "listeners (final d) = listeners ?m1 @ added'" by blast
      then show ?thesis by auto
    qed
  qed
qed

lemma dispatch_adds_only:
  assumes "adds_only beh" and "dispatch fuel beh m c = Some d"
    and "list_all (\<lambda>x. \<exists>p. outcome (beh (fst x)) = Returns p) (invoked d)"
  shows "map fst (invoked d) = listeners (final d)
         \<and> (\<exists>added. listeners (final d) = listeners m @ added)"
  using dispatch_loop_adds_only[OF assms(1), of fuel c m 0 "[]" "[]" d] assms(2,3)
  by (simp add: dispatch_def)


text \<open>
  C9 (as the claim states it). The dispatch does not work on a snapshot: with the single
  listener 1, whose handler adds listener 2, the same dispatch calls 2 as well. A handler
  that fails can keep the others from being notified: when the handler of listener 1
  throws, listener 2 is not called. The operation does not wait for every handler and
  does not collect the failures: with listener 1 rejecting at time 1, listener 2
  fulfilling at time 5 and listener 3 rejecting at time 2, the promise of the operation
  rejects at time 1 with the error of listener 1 alone.
\<close>

theorem C9_dispatch_counterexample:
  "listeners (with_listeners [1]) = [1]
   \<and> map_option (\<lambda>d. map fst (invoked d)) (dispatch 10 adds_listener_2 (with_listeners [1]) None)
       = Some [1, 2]
   \<and> map_option (\<lambda>d. map fst (invoked d)) (dispatch 10 first_throws (with_listeners [1, 2]) None)
       = Some [1]
   \<and> map_option settled (dispatch 10 first_rejects (with_listeners [1, 2, 3]) None)
       = Some (Rejected 1 (HandlerError 1))
   \<and> returned (first_rejects 2) = Fulfilled 5 ()
   \<and> returned (first_rejects 3) = Rejected 2 (HandlerError 3)"
  by code_simp

text \<open>
  C9 (amended). The dispatch walks the live list of listeners. When no handler touches
  the list, it ends within as many steps as there are listeners; it calls the listeners
  in order up to the first whose handler throws, and its promise rejects with that
  exception, or else is \<^verbatim>\<open>Promise.all\<close> of the promises the handlers returned. That
  promise fulfils only when every handler's promise has fulfilled, and not before the
  last of them; it rejects with the one error of the first handler to reject, at the
  time that handler rejects. When handlers only add listeners and none throws, a
  dispatch that ends has called every listener of the list as it then stands, the added
  ones included. More steps never change the result of a dispatch that ends.
\<close>

theorem C9_dispatch_live_list_no_aggregate:
  "(list_all (\<lambda>l. actions (beh l) = []) (listeners m) \<longrightarrow>
      dispatch (Suc (length (listeners m))) beh m c =
        Some \<lparr>invoked = map (\<lambda>l. (l, c)) (fst (until_throw beh (listeners m))),
              final = m,
              settled = (case snd (until_throw beh (listeners m)) of
                           Some e \<Rightarrow> Rejected 0 e
                         | None \<Rightarrow> promise_all (map (\<lambda>l. returned (beh l)) (listeners m)))\<rparr>)
   \<and> (promise_all ps = Fulfilled t x \<and> p \<in> set ps \<longrightarrow> is_fulfilled p \<and> settle_time p \<le> t)
   \<and> (promise_all ps = Rejected t e \<longrightarrow>
        Rejected t e \<in> set ps \<and> (\<forall>p \<in> set ps. \<not> is_fulfilled p \<longrightarrow> t \<le> settle_time p))
   \<and> (adds_only beh \<and> dispatch fuel beh m c = Some d
       \<and> list_all (\<lambda>x. \<exists>p. outcome (beh (fst x)) = Returns p) (invoked d) \<longrightarrow>
        map fst (invoked d) = listeners (final d)
        \<and> (\<exists>added. listeners (final d) = listeners m @ added))
   \<and> (dispatch fuel beh m c = Some d \<longrightarrow> dispatch (fuel + n) beh m c = Some d)"
proof -
  have a: "list_all (\<lambda>l. actions (beh l) = []) (listeners m) \<longrightarrow>
      dispatch (Suc (length (listeners m))) beh m c =
        Some \<lparr>invoked = map (\<lambda>l. (l, c)) (fst (until_throw beh (listeners m))),
              final = m,
              settled = (case snd (until_throw beh (listeners m)) of
                           Some e \<Rightarrow> Rejected 0 e
                         | None \<Rightarrow> promise_all (map (\<lambda>l. returned (beh l)) (listeners m)))\<rparr>"
    using dispatch_untouched[of m beh c] by (simp add: list_all_iff)
  have b: "promise_all ps = Fulfilled t x \<and> p \<in> set ps \<longrightarrow> is_fulfilled p \<and> settle_time p \<le> t"
    using promise_all_Fulfilled[of ps t x p] by blast
  have c: "promise_all ps = Rejected t e \<longrightarrow>
        Rejected t e \<in> set ps \<and> (\<forall>p \<in> set ps. \<not> is_fulfilled p \<longrightarrow> t \<le> settle_time p)"
    using promise_all_Rejected[of ps t e] by blast
  have d: "adds_only beh \<and> dispatch fuel beh m c = Some d
       \<and> list_all (\<lambda>x. \<exists>p. outcome (beh (fst x)) = Returns p) (invoked d) \<longrightarrow>
        map fst (invoked d) = listeners (final d)
        \<and> (\<exists>added. listeners (final d) = listeners m @ added)"
    using dispatch_adds_only[of beh fuel m c d] by blast
  have e: "dispatch fuel beh m c = Some d \<longrightarrow> dispatch (fuel + n) beh m c = Some d"
    using dispatch_loop_more_fuel[of fuel beh c m 0 "[]" "[]" d n] by (simp add: dispatch_def)
  from a b c d e show ?thesis by blast
qed

text \<open>
  C9 (amended) at examples: three listeners that leave the list alone, the first and the
  third of which reject; \<^verbatim>\<open>Promise.all\<close> of fulfilled and of rejected promises; and the
  listener whose handler adds another.
\<close>

theorem C9_witness:
  "list_all (\<lambda>l. actions (first_rejects l) = []) (listeners (with_listeners [1, 2, 3]))
   \<and> dispatch 4 first_rejects (with_listeners [1, 2, 3]) (Some 0) =
       Some \<lparr>invoked = [(1, Some 0), (2, Some 0), (3, Some 0)],
             final = with_listeners [1, 2, 3],
             settled = Rejected 1 (HandlerError 1)\<rparr>
   \<and> promise_all [Fulfilled 5 (), Fulfilled 3 ()] = Fulfilled 5 ()
   \<and> is_fulfilled (Fulfilled 3 ()) \<and> settle_time (Fulfilled 3 ()) \<le> (5::nat)
   \<and> promise_all [Rejected 2 (HandlerError 3), Fulfilled 5 (), Rejected 1 (HandlerError 1)]
       = Rejected 1 (HandlerError 1)
   \<and> (1::nat) \<le> settle_time (Rejected 2 (HandlerError 3))
   \<and> adds_only adds_listener_2
   \<and> dispatch 3 adds_listener_2 (with_listeners [1]) None =
       Some \<lparr>invoked = [(1, None), (2, None)], final = with_listeners [1, 2],
             settled = Fulfilled 5 ()\<rparr>
   \<and> map fst [(1::nat, None::ref option), (2, None)] = listeners (with_listeners [1, 2])
   \<and> dispatch (3 + 7) adds_listener_2 (with_listeners [1]) None =
       Some \<lparr>invoked = [(1, None), (2, None)], final = with_listeners [1, 2],
             settled = Fulfilled 5 ()\<rparr>"
proof -
  let ?d = "\<lparr>invoked = [(1, None), (2, None)], final = with_listeners [1, 2],
             settled = Fulfilled 5 ()\<rparr>"
  have h: "list_all (\<lambda>l. actions (first_rejects l) = []) (listeners (with_listeners [1, 2, 3]))"
    by (simp add: first_rejects_def quiet_def with_listeners_def)
  have l: "listeners (with_listeners [1, 2, 3]) = [1, 2, 3]"
    by (simp add: with_listeners_def)
  have u: "until_throw first_rejects [1, 2, 3] = ([1, 2, 3], None)"
    by (simp add: first_rejects_def quiet_def)
  have pa: "promise_all (map (\<lambda>l. returned (first_rejects l)) [1, 2, 3]) = Rejected 1 (HandlerError 1)"
    by (simp add: promise_all_def returned_def first_rejects_def quiet_def)
  from C9_dispatch_live_list_no_aggregate[of first_rejects "with_listeners [1, 2, 3]" "Some 0"] h
  have "dispatch (Suc (length (listeners (with_listeners [1, 2, 3])))) first_rejects
          (with_listeners [1, 2, 3]) (Some 0) =
        Some \<lparr>invoked = map (\<lambda>l. (l, Some 0))
                  (fst (until_throw first_rejects (listeners (with_listeners [1, 2, 3])))),
              final = with_listeners [1, 2, 3],
              settled = (case snd (until_throw first_rejects (listeners (with_listeners [1, 2, 3]))) of
                           Some e \<Rightarrow> Rejected 0 e
                         | None \<Rightarrow> promise_all (map (\<lambda>l. returned (first_rejects l))
                              (listeners (with_listeners [1, 2, 3]))))\<rparr>"
    by blast
  then have a: "dispatch 4 first_rejects (with_listeners [1, 2, 3]) (Some 0) =
       Some \<lparr>invoked = [(1, Some 0), (2, Some 0), (3, Some 0)],
             final = with_listeners [1, 2, 3],
             settled = Rejected 1 (HandlerError 1)\<rparr>"
    unfolding l u pa by (simp add: eval_nat_numeral)
  have f: "promise_all [Fulfilled 5 (), Fulfilled 3 ()] = Fulfilled 5 ()"
    by (simp add: promise_all_def)
  from C9_dispatch_live_list_no_aggregate[where ps = "[Fulfilled 5 (), Fulfilled 3 ()]"
      and t = 5 and x = "()" and p = "Fulfilled 3 ()"] f
  have b: "is_fulfilled (Fulfilled 3 ()) \<and> settle_time (Fulfilled 3 ()) \<le> (5::nat)"
    by simp
  have r: "promise_all [Rejected 2 (HandlerError 3), Fulfilled 5 (), Rejected 1 (HandlerError 1)]
       = Rejected 1 (HandlerError 1)"
    by (simp add: promise_all_def)
  from C9_dispatch_live_list_no_aggregate[where
      ps = "[Rejected 2 (HandlerError 3), Fulfilled 5 (), Rejected 1 (HandlerError 1)]"
      and t = 1 and e = "HandlerError 1"] r
  have c: "(1::nat) \<le> settle_time (Rejected 2 (HandlerError 3))"
    by simp
  have ao: "adds_only adds_listener_2"
    by (simp add: adds_only_def adds_listener_2_def quiet_def)
  have d3: "dispatch 3 adds_listener_2 (with_listeners [1]) None = Some ?d"
    by code_simp
  have la: "list_all (\<lambda>x. \<exists>p. outcome (adds_listener_2 (fst x)) = Returns p) (invoked ?d)"
    by (simp add: adds_listener_2_def quiet_def)
  from C9_dispatch_live_list_no_aggregate[where beh = adds_listener_2 and fuel = 3
      and m = "with_listeners [1]" and c = None and d = ?d and n = 7] ao d3 la
  have d: "map fst (invoked ?d) = listeners (final ?d)"
    and e: "dispatch (3 + 7) adds_listener_2 (with_listeners [1]) None = Some ?d"
    by blast+
  from d have d': "map fst [(1::nat, None::ref option), (2, None)] = listeners (with_listeners [1, 2])"
    by simp
  from h a f b r c ao d3 d' e show ?thesis by blast
qed

section \<open>Proofs: the returned array\<close>

lemma compareConnections_connections:
  "compareConnections lc (m\<lparr>connections := cs\<rparr>) = compareConnections lc m"
proof (intro ext)
  fix c1 c2
  have h: "heap (m\<lparr>connections := cs\<rparr>) = heap m"
    and c: "currentConnection (m\<lparr>connections := cs\<rparr>) = currentConnection m"
    by simp_all
  show "compareConnections lc (m\<lparr>connections := cs\<rparr>) c1 c2 = compareConnections lc m c1 c2"
    unfolding compareConnections_def getPriority_def getUri_def h c ..
qed

text \<open>
  C10. \<^verbatim>\<open>getConnections\<close> returns a new array: its address is none of the store's, in
  particular not that of the manager's array. The call leaves every array of the store as
  it was, the manager's array with its order included; the new array holds the sorted
  connections; and whatever is written into the new array afterwards, the manager's
  array stays as it was.
\<close>

theorem C10_getConnections_returns_copy:
  assumes "a < length arrays"
  shows "snd (getConnections_store lc m arrays a) = length arrays
    \<and> snd (getConnections_store lc m arrays a) \<noteq> a
    \<and> take (length arrays) (fst (getConnections_store lc m arrays a)) = arrays
    \<and> fst (getConnections_store lc m arrays a) ! a = arrays ! a
    \<and> fst (getConnections_store lc m arrays a) ! snd (getConnections_store lc m arrays a)
        = getConnections lc (m\<lparr>connections := arrays ! a\<rparr>)
    \<and> ((fst (getConnections_store lc m arrays a))[snd (getConnections_store lc m arrays a) := xs]) ! a
        = arrays ! a"
  using assms
  by (simp add: getConnections_store_def copyArray_def sort_in_place_def getConnections_def
      compareConnections_connections nth_append)

text \<open>
  C10 at a store whose only array is the registry \<open>[2, 0, 1]\<close> of \<open>ex_rank\<close>: the call
  returns the new address 1, and emptying the array at that address leaves the registry
  as it was.
\<close>

theorem C10_witness:
  "(0::nat) < length [[2, 0, 1::nat]]
   \<and> getConnections_store ignoring_case ex_rank [[2, 0, 1]] 0 = ([[2, 0, 1], [0, 1, 2]], 1)
   \<and> ((fst (getConnections_store ignoring_case ex_rank [[2, 0, 1]] 0))
         [snd (getConnections_store ignoring_case ex_rank [[2, 0, 1]] 0) := []]) ! 0 = [2, 0, 1]"
proof -
  have e: "getConnections_store ignoring_case ex_rank [[2, 0, 1]] 0 = ([[2, 0, 1], [0, 1, 2]], 1)"
    by code_simp
  have l: "(0::nat) < length [[2, 0, 1::nat]]" by simp
  from C10_getConnections_returns_copy[OF l, of ignoring_case ex_rank "[]"] e l
  show ?thesis by simp
qed

end
